theory Spec2Isabelle
  imports Complex_Main "HOL-Library.Product_Lexorder" "HOL-Library.Log_Nat"
begin

section \<open>Configuration constants\<close>

text \<open>
  The three demo programs (base, v2, v10) share the tile and grid sizes.
  Python integers are modelled as \<open>int\<close>, Python floats as \<open>real\<close>.
\<close>

type_synonym cell = "int \<times> int"

definition TILE_W :: int where "TILE_W = 64"
definition TILE_H :: int where "TILE_H = 32"
definition GRID_W :: int where "GRID_W = 40"
definition GRID_H :: int where "GRID_H = 40"

text \<open>v10 only: \<^verbatim>\<open>ISO_ORIGIN_X = (GRID_H - 1) * (TILE_W // 2)\<close>, \<^verbatim>\<open>ISO_ORIGIN_Y = 0\<close>.\<close>

definition ISO_ORIGIN_X :: int where "ISO_ORIGIN_X = (GRID_H - 1) * (TILE_W div 2)"
definition ISO_ORIGIN_Y :: int where "ISO_ORIGIN_Y = 0"

text \<open>A grid cell of the data model: \<open>0 \<le> x < GRID_W\<close>, \<open>0 \<le> y < GRID_H\<close>.\<close>

definition in_bounds :: "cell \<Rightarrow> bool" where
  "in_bounds c = (0 \<le> fst c \<and> fst c < GRID_W \<and> 0 \<le> snd c \<and> snd c < GRID_H)"

section \<open>Coordinate projector\<close>

text \<open>
  Python's \<^verbatim>\<open>int(x)\<close> on a float truncates toward zero; \<^verbatim>\<open>round(x)\<close> on a float
  rounds to the nearest integer, a tie going to the even neighbour.
\<close>

definition py_int :: "real \<Rightarrow> int" where
  "py_int r = (if r < 0 then \<lceil>r\<rceil> else \<lfloor>r\<rfloor>)"

definition py_round :: "real \<Rightarrow> int" where
  "py_round r =
     (let fl = \<lfloor>r\<rfloor>; d = r - of_int fl
      in if d < 1 / 2 then fl
         else if 1 / 2 < d then fl + 1
         else if even fl then fl else fl + 1)"

text \<open>Base variant: \<^verbatim>\<open>grid_to_screen(gx, gy, ox, oy)\<close> and \<^verbatim>\<open>screen_to_grid(sx, sy, ox, oy)\<close>.\<close>

definition grid_to_screen :: "int \<Rightarrow> int \<Rightarrow> int \<Rightarrow> int \<Rightarrow> int \<times> int" where
  "grid_to_screen cx cy ox oy =
     (let sx = (cx - cy) * (TILE_W div 2) + ox;
          sy = (cx + cy) * (TILE_H div 2) + oy
      in (sx, sy))"

definition screen_to_grid :: "int \<Rightarrow> int \<Rightarrow> int \<Rightarrow> int \<Rightarrow> int \<times> int" where
  "screen_to_grid sx sy ox oy =
     (let x = sx - ox;
          y = sy - oy;
          rx = py_int ((of_int y / (of_int TILE_H / 2) + of_int x / (of_int TILE_W / 2)) / 2);
          ry = py_int ((of_int y / (of_int TILE_H / 2) - of_int x / (of_int TILE_W / 2)) / 2)
      in (rx, ry))"

text \<open>v10 variant: \<^verbatim>\<open>grid_to_iso(gx, gy)\<close> and \<^verbatim>\<open>iso_to_grid(ix, iy)\<close>, shifted by the origin.\<close>

definition grid_to_iso :: "int \<Rightarrow> int \<Rightarrow> int \<times> int" where
  "grid_to_iso cx cy =
     (let iso_x = (cx - cy) * (TILE_W div 2) + ISO_ORIGIN_X;
          iso_y = (cx + cy) * (TILE_H div 2) + ISO_ORIGIN_Y
      in (iso_x, iso_y))"

definition iso_to_grid :: "real \<Rightarrow> real \<Rightarrow> int \<times> int" where
  "iso_to_grid ix iy =
     (let ix1 = ix - of_int ISO_ORIGIN_X;
          iy1 = iy - of_int ISO_ORIGIN_Y;
          rx = (ix1 / (of_int TILE_W / 2) + iy1 / (of_int TILE_H / 2)) / 2;
          ry = (iy1 / (of_int TILE_H / 2) - ix1 / (of_int TILE_W / 2)) / 2
      in (py_round rx, py_round ry))"

text \<open>v2 variant: the same pair without the origin shift.\<close>

definition grid_to_iso_v2 :: "int \<Rightarrow> int \<Rightarrow> int \<times> int" where
  "grid_to_iso_v2 cx cy =
     (let x = (cx - cy) * (TILE_W div 2);
          y = (cx + cy) * (TILE_H div 2)
      in (x, y))"

definition iso_to_grid_v2 :: "real \<Rightarrow> real \<Rightarrow> int \<times> int" where
  "iso_to_grid_v2 ix iy =
     (let rx = (ix / (of_int TILE_W / 2) + iy / (of_int TILE_H / 2)) / 2;
          ry = (iy / (of_int TILE_H / 2) - ix / (of_int TILE_W / 2)) / 2
      in (py_round rx, py_round ry))"

section \<open>Obstacle set\<close>

text \<open>
  \<^verbatim>\<open>IsoMap.__init__\<close> draws 120 coordinate pairs from a seeded generator of the Python
  standard library and adds each pair to \<^verbatim>\<open>blocked\<close> unless it is one of the excluded
  cells. The generator is library code, so the sequence of drawn pairs is a parameter.
\<close>

definition IsoMap_add :: "cell list \<Rightarrow> cell \<Rightarrow> cell set \<Rightarrow> cell set" where
  "IsoMap_add excluded d blocked = (if d \<notin> set excluded then insert d blocked else blocked)"

definition IsoMap_init :: "cell list \<Rightarrow> cell set" where
  "IsoMap_init draws = fold (IsoMap_add [(10, 10), (20, 20)]) draws {}"

definition IsoMap_init_base :: "cell list \<Rightarrow> cell set" where
  "IsoMap_init_base draws = fold (IsoMap_add [(10, 10), (11, 10), (10, 11)]) draws {}"

section \<open>Grid pathfinder\<close>

datatype py_error = KeyError

text \<open>The local variables of \<^verbatim>\<open>astar\<close> that the search loop mutates.\<close>

record astar_state =
  open_set :: "cell set"
  came :: "cell \<rightharpoonup> cell"
  g :: "cell \<rightharpoonup> int"
  f :: "cell \<rightharpoonup> int"

text \<open>\<^verbatim>\<open>d.get(k, default)\<close>\<close>

definition dict_get :: "('k \<rightharpoonup> 'v) \<Rightarrow> 'k \<Rightarrow> 'v \<Rightarrow> 'v" where
  "dict_get d k dflt = (case d k of None \<Rightarrow> dflt | Some v \<Rightarrow> v)"

definition h :: "cell \<Rightarrow> cell \<Rightarrow> int" where
  "h a b = \<bar>fst a - fst b\<bar> + \<bar>snd a - snd b\<bar>"

text \<open>The generator \<^verbatim>\<open>neighbors(n)\<close>, as the list of cells it yields, in its order.\<close>

definition neighbors :: "cell set \<Rightarrow> cell \<Rightarrow> cell list" where
  "neighbors blocked n =
     (case n of (x, y) \<Rightarrow>
        filter (\<lambda>(nx, ny). 0 \<le> nx \<and> nx < GRID_W \<and> 0 \<le> ny \<and> ny < GRID_H \<and> (nx, ny) \<notin> blocked)
          (map (\<lambda>(dx, dy). (x + dx, y + dy)) [(1, 0), (- 1, 0), (0, 1), (0, - 1)]))"

text \<open>
  The body of \<^verbatim>\<open>for nb in neighbors(current)\<close>, run over the remaining neighbours.
  \<^verbatim>\<open>g[current]\<close> raises \<^verbatim>\<open>KeyError\<close> when \<^verbatim>\<open>current\<close> has no score.
\<close>

fun expand :: "cell \<Rightarrow> cell \<Rightarrow> cell list \<Rightarrow> astar_state \<Rightarrow> py_error + astar_state" where
  "expand goal current [] s = Inr s"
| "expand goal current (nb # nbs) s =
     (case g s current of
        None \<Rightarrow> Inl KeyError
      | Some gc \<Rightarrow>
          (let tentative = gc + 1
           in if tentative < dict_get (g s) nb (10 ^ 9)
              then expand goal current nbs
                     (s\<lparr>came := (came s)(nb \<mapsto> current),
                        g := (g s)(nb \<mapsto> tentative),
                        f := (f s)(nb \<mapsto> tentative + h nb goal),
                        open_set := insert nb (open_set s)\<rparr>)
              else expand goal current nbs s))"

text \<open>
  The path reconstruction \<^verbatim>\<open>while current in came: current = came[current];
  path.append(current)\<close>. The loop has no bound of its own, so not returning is \<open>None\<close>.
\<close>

partial_function (option) walk_back :: "(cell \<rightharpoonup> cell) \<Rightarrow> cell \<Rightarrow> cell list \<Rightarrow> cell list option" where
  "walk_back cm current pth =
     (case cm current of
        None \<Rightarrow> Some pth
      | Some p \<Rightarrow> walk_back cm p (pth @ [p]))"

text \<open>
  \<^verbatim>\<open>min(open_set, key=lambda n: f.get(n, 10**9))\<close> returns the first cell of least key in
  the iteration order of the set, an order that Python leaves unspecified. The selection
  is therefore a parameter of the model; \<open>is_min_selector\<close> says what every
  implementation of \<^verbatim>\<open>min\<close> guarantees on a finite non-empty set.
\<close>

type_synonym selector = "(cell \<Rightarrow> int) \<Rightarrow> cell set \<Rightarrow> cell"

definition is_min_selector :: "selector \<Rightarrow> bool" where
  "is_min_selector sel =
     (\<forall>key S. finite S \<longrightarrow> S \<noteq> {} \<longrightarrow> sel key S \<in> S \<and> (\<forall>n\<in>S. key (sel key S) \<le> key n))"

text \<open>One executable selection: among the cells of least key, the least cell.\<close>

definition lex_min :: selector where
  "lex_min key S = snd (Min ((\<lambda>n. (key n, n)) ` S))"

text \<open>
  The \<^verbatim>\<open>while open_set\<close> loop. \<^verbatim>\<open>open_set.remove(current)\<close> raises \<^verbatim>\<open>KeyError\<close> when
  the cell is not a member.
\<close>

partial_function (option) astar_loop ::
    "selector \<Rightarrow> cell \<Rightarrow> cell set \<Rightarrow> astar_state \<Rightarrow> (py_error + cell list) option" where
  "astar_loop sel goal blocked s =
     (if open_set s = {} then Some (Inr [])
      else
        (let current = sel (\<lambda>n. dict_get (f s) n (10 ^ 9)) (open_set s)
         in if current = goal
            then map_option (\<lambda>pth. Inr (rev pth)) (walk_back (came s) current [current])
            else if current \<notin> open_set s then Some (Inl KeyError)
            else (case expand goal current (neighbors blocked current)
                         (s\<lparr>open_set := open_set s - {current}\<rparr>) of
                    Inl e \<Rightarrow> Some (Inl e)
                  | Inr s' \<Rightarrow> astar_loop sel goal blocked s')))"

declare walk_back.simps [code]
declare astar_loop.simps [code]

definition astar_init :: "cell \<Rightarrow> cell \<Rightarrow> astar_state" where
  "astar_init start goal =
     \<lparr>open_set = {start}, came = Map.empty, g = [start \<mapsto> 0], f = [start \<mapsto> h start goal]\<rparr>"

text \<open>v2 and v10: \<^verbatim>\<open>astar\<close> with its two early returns.\<close>

definition astar :: "selector \<Rightarrow> cell \<Rightarrow> cell \<Rightarrow> cell set \<Rightarrow> (py_error + cell list) option" where
  "astar sel start goal blocked =
     (if start = goal then Some (Inr [start])
      else if goal \<in> blocked then Some (Inr [])
      else astar_loop sel goal blocked (astar_init start goal))"

text \<open>Base variant: \<^verbatim>\<open>astar\<close> enters the loop at once.\<close>

definition astar_base :: "selector \<Rightarrow> cell \<Rightarrow> cell \<Rightarrow> cell set \<Rightarrow> (py_error + cell list) option" where
  "astar_base sel start goal blocked = astar_loop sel goal blocked (astar_init start goal)"

section \<open>Path-following agent\<close>

text \<open>
  The \<^verbatim>\<open>Hero\<close> dataclass of the base variant and v10 (v2 has no \<^verbatim>\<open>level\<close> and
  \<^verbatim>\<open>gold\<close>, which no method reads). \<^verbatim>\<open>path\<close> is \<^verbatim>\<open>None\<close> or a list; \<^verbatim>\<open>step_timer\<close> and
  \<^verbatim>\<open>dt\<close> are floats.
\<close>

record hero =
  gx :: int
  gy :: int
  hp :: int
  mp :: int
  level :: int
  gold :: int
  path :: "cell list option"
  step_timer :: real

text \<open>
  A Python float is an IEEE 754 binary64 number; a finite one is represented here by the
  real number it denotes. \<open>double_round\<close> rounds a real number to the nearest such number,
  a tie going to the one with the even significand. It works in units of the least
  positive float \<open>2\<^bsup>-1074\<^esup>\<close>: a number whose integer part has \<open>b > 53\<close> bits in these
  units keeps 53 significant bits, so it is rounded to a multiple of \<open>2\<^bsup>b-53\<^esup>\<close> units, and
  a smaller one (the subnormal range and the first binade above it) to a whole unit.
  Infinities and NaN are not represented: the timer and \<^verbatim>\<open>dt\<close> are finite, and a result
  beyond the largest finite float, which Python turns into an infinity, is outside the
  model.
\<close>

definition double_round :: "real \<Rightarrow> real" where
  "double_round x =
     (let y = x * 2 ^ 1074;
          k = nat (bitlen \<lfloor>\<bar>y\<bar>\<rfloor> - 53)
      in of_int (py_round (y / 2 ^ k)) * 2 ^ k / 2 ^ 1074)"

text \<open>
  Float \<^verbatim>\<open>+\<close> and \<^verbatim>\<open>-\<close> round the exact result; a float literal denotes the float nearest
  to its decimal value.
\<close>

definition fadd :: "real \<Rightarrow> real \<Rightarrow> real" where
  "fadd a b = double_round (a + b)"

definition fsub :: "real \<Rightarrow> real \<Rightarrow> real" where
  "fsub a b = double_round (a - b)"

definition float_0_10 :: real where
  "float_0_10 = double_round (10 / 100)"

definition float_0_12 :: real where
  "float_0_12 = double_round (12 / 100)"

definition set_path :: "cell list \<Rightarrow> hero \<Rightarrow> hero" where
  "set_path p s =
     (let p1 = (if p \<noteq> [] \<and> hd p = (gx s, gy s) then tl p else p)
      in s\<lparr>path := Some p1\<rparr>)"

text \<open>v2 and v10: the countdown timer, restarted at \<^verbatim>\<open>0.10\<close>.\<close>

definition update :: "real \<Rightarrow> hero \<Rightarrow> hero" where
  "update dt s =
     (case path s of
        None \<Rightarrow> s
      | Some [] \<Rightarrow> s
      | Some (c # rest) \<Rightarrow>
          (let t = fsub (step_timer s) dt
           in if 0 < t then s\<lparr>step_timer := t\<rparr>
              else s\<lparr>gx := fst c, gy := snd c, path := Some rest, step_timer := float_0_10\<rparr>))"

text \<open>
  Base variant: the timer counts up to \<^verbatim>\<open>0.12\<close> and an exhausted path is cleared to
  \<^verbatim>\<open>None\<close>.
\<close>

definition update_base :: "real \<Rightarrow> hero \<Rightarrow> hero" where
  "update_base dt s =
     (case path s of
        None \<Rightarrow> s
      | Some [] \<Rightarrow> s
      | Some (c # rest) \<Rightarrow>
          (let t = fadd (step_timer s) dt
           in if float_0_12 \<le> t
              then s\<lparr>step_timer := 0, gx := fst c, gy := snd c,
                     path := (if rest = [] then None else Some rest)\<rparr>
              else s\<lparr>step_timer := t\<rparr>))"

text \<open>
  The default agent of the base variant, \<^verbatim>\<open>Hero()\<close>. In v2 \<^verbatim>\<open>Hero()\<close> has the same
  position, path and timer; in v10 the position is a constructor argument.
\<close>

definition hero0 :: hero where
  "hero0 = \<lparr>gx = 10, gy = 10, hp = 38, mp = 24, level = 3, gold = 109,
            path = None, step_timer = 0\<rparr>"

text \<open>An agent in the Moving state with two cells left on its path and the timer at zero.\<close>

definition hero_two_cells :: hero where
  "hero_two_cells = hero0\<lparr>path := Some [(11, 10), (12, 10)]\<rparr>"

text \<open>Idle: no path, which the code tests as \<^verbatim>\<open>not self.path\<close> (absent or empty).\<close>

definition idle :: "hero \<Rightarrow> bool" where
  "idle s = (path s = None \<or> path s = Some [])"

text \<open>The invariant of the data model: a path that is present is non-empty.\<close>

definition path_inv :: "hero \<Rightarrow> bool" where
  "path_inv s = (case path s of None \<Rightarrow> True | Some p \<Rightarrow> p \<noteq> [])"

text \<open>The number of cells still to visit, and the cells consumed between two states.\<close>

definition remaining :: "hero \<Rightarrow> nat" where
  "remaining s = (case path s of None \<Rightarrow> 0 | Some p \<Rightarrow> length p)"

definition cells_advanced :: "hero \<Rightarrow> hero \<Rightarrow> nat" where
  "cells_advanced s s' = remaining s - remaining s'"

section \<open>Pathfinder: specification and invariants\<close>

text \<open>
  The notions the claims about the pathfinder are stated in: an axis-aligned unit step, a
  walk (every cell after the first is reached by a unit step, is in bounds and is not
  blocked), a route from \<open>start\<close> to \<open>goal\<close>, and reachability.
\<close>

definition unit_step :: "cell \<Rightarrow> cell \<Rightarrow> bool" where
  "unit_step a b = (\<bar>fst a - fst b\<bar> + \<bar>snd a - snd b\<bar> = 1)"

fun walk :: "cell set \<Rightarrow> cell list \<Rightarrow> bool" where
  "walk B [] = True"
| "walk B [a] = True"
| "walk B (a # b # rest) = (unit_step a b \<and> in_bounds b \<and> b \<notin> B \<and> walk B (b # rest))"

definition route :: "cell set \<Rightarrow> cell \<Rightarrow> cell \<Rightarrow> cell list \<Rightarrow> bool" where
  "route B start goal p = (p \<noteq> [] \<and> hd p = start \<and> last p = goal \<and> walk B p)"

definition reachable :: "cell set \<Rightarrow> cell \<Rightarrow> cell \<Rightarrow> bool" where
  "reachable B start goal = (\<exists>p. route B start goal p)"

text \<open>
  What the search loop maintains. Scores are only ever given to the start cell and to
  in-bounds cells; \<open>gsum\<close> adds up the scores over these cells, an absent score counting
  as the default \<open>10^9\<close> of \<^verbatim>\<open>g.get\<close>.
\<close>

definition universe :: "cell \<Rightarrow> cell set" where
  "universe start = insert start {c. in_bounds c}"

definition gval :: "astar_state \<Rightarrow> cell \<Rightarrow> nat" where
  "gval s c = nat (dict_get (g s) c (10 ^ 9))"

definition gsum :: "cell \<Rightarrow> astar_state \<Rightarrow> nat" where
  "gsum start s = (\<Sum>c\<in>universe start. gval s c)"

text \<open>
  The invariant of the dictionaries: the frontier is scored, the start has score \<open>0\<close> and
  no predecessor, \<open>f = g + h\<close>, scores are below the number of scored cells, and the
  predecessor of a cell is a neighbour with a strictly smaller score.
\<close>

definition astar_inv :: "cell \<Rightarrow> cell \<Rightarrow> cell set \<Rightarrow> astar_state \<Rightarrow> bool" where
  "astar_inv start goal blocked s =
     (open_set s \<subseteq> dom (g s) \<and>
      dom (g s) \<subseteq> universe start \<and>
      g s start = Some 0 \<and> came s start = None \<and>
      (\<forall>n v. g s n = Some v \<longrightarrow>
         0 \<le> v \<and> v < int (card (dom (g s))) \<and> f s n = Some (v + h n goal) \<and>
         (n = start \<or> came s n \<noteq> None)) \<and>
      (\<forall>n p. came s n = Some p \<longrightarrow>
         n \<in> set (neighbors blocked p) \<and>
         (\<exists>vn vp. g s n = Some vn \<and> g s p = Some vp \<and> vp + 1 \<le> vn)))"

text \<open>A scored cell outside the frontier has relaxed all its neighbours.\<close>

definition closed_ok :: "cell set \<Rightarrow> astar_state \<Rightarrow> cell \<Rightarrow> bool" where
  "closed_ok blocked s n =
     (\<forall>nb\<in>set (neighbors blocked n). \<exists>vn vb. g s n = Some vn \<and> g s nb = Some vb \<and> vb \<le> vn + 1)"

text \<open>The state after the body of the \<^verbatim>\<open>if tentative < g.get(nb, 10**9)\<close> branch.\<close>

definition relax :: "cell \<Rightarrow> cell \<Rightarrow> int \<Rightarrow> cell \<Rightarrow> astar_state \<Rightarrow> astar_state" where
  "relax goal current gc nb s =
     s\<lparr>came := (came s)(nb \<mapsto> current),
       g := (g s)(nb \<mapsto> gc + 1),
       f := (f s)(nb \<mapsto> gc + 1 + h nb goal),
       open_set := insert nb (open_set s)\<rparr>"

text \<open>What one run of the \<^verbatim>\<open>for\<close> loop over the neighbours achieves.\<close>

definition expand_post ::
    "cell \<Rightarrow> cell \<Rightarrow> int \<Rightarrow> cell list \<Rightarrow> astar_state \<Rightarrow> astar_state \<Rightarrow> bool" where
  "expand_post start current gc nbs s s' =
     (g s' current = Some gc \<and>
      open_set s \<subseteq> open_set s' \<and>
      (\<forall>n v. g s n = Some v \<longrightarrow> (\<exists>v'. g s' n = Some v' \<and> v' \<le> v)) \<and>
      (\<forall>n. g s' n \<noteq> g s n \<longrightarrow> n \<in> open_set s') \<and>
      (\<forall>nb\<in>set nbs. \<exists>vb. g s' nb = Some vb \<and> vb \<le> gc + 1) \<and>
      (s' = s \<or> gsum start s' < gsum start s))"

text \<open>The invariant of the \<^verbatim>\<open>while\<close> loop; the goal is never taken off the frontier.\<close>

definition loop_inv :: "cell \<Rightarrow> cell \<Rightarrow> cell set \<Rightarrow> astar_state \<Rightarrow> bool" where
  "loop_inv start goal blocked s =
     (astar_inv start goal blocked s \<and>
      (\<forall>n\<in>dom (g s) - open_set s. closed_ok blocked s n) \<and>
      (goal \<in> dom (g s) \<longrightarrow> goal \<in> open_set s))"

text \<open>The order in which every iteration of the \<^verbatim>\<open>while\<close> loop descends.\<close>

definition loop_rel :: "cell \<Rightarrow> (astar_state \<times> astar_state) set" where
  "loop_rel start =
     inv_image (less_than <*lex*> less_than) (\<lambda>s. (gsum start s, card (open_set s)))"

section \<open>Coordinate projector: round trip\<close>

lemma py_int_of_int: "py_int (of_int n) = n"
  by (simp add: py_int_def)

lemma py_round_of_int: "py_round (of_int n) = n"
  by (simp add: py_round_def Let_def)

lemma half_sum:
  "(((a - b) * 32 + c - c) / (64 / 2) + ((a + b) * 16 + d - d) / (32 / 2)) / 2 = (a::real)"
  by (simp add: field_simps)

lemma half_sum_swap:
  "(((a + b) * 16 + d - d) / (32 / 2) + ((a - b) * 32 + c - c) / (64 / 2)) / 2 = (a::real)"
  by (simp add: field_simps)

lemma half_diff:
  "(((a + b) * 16 + d - d) / (32 / 2) - ((a - b) * 32 + c - c) / (64 / 2)) / 2 = (b::real)"
  by (simp add: field_simps)

lemma screen_to_grid_inverse:
  "screen_to_grid (fst (grid_to_screen cx cy ox oy)) (snd (grid_to_screen cx cy ox oy)) ox oy
     = (cx, cy)"
proof -
  have "py_int ((((of_int cx + of_int cy) * 16 + of_int oy - of_int oy) / (32 / 2)
          + ((of_int cx - of_int cy) * 32 + of_int ox - of_int ox) / (64 / 2)) / 2) = cx"
    by (simp only: half_sum_swap py_int_of_int)
  moreover have "py_int ((((of_int cx + of_int cy) * 16 + of_int oy - of_int oy) / (32 / 2)
          - ((of_int cx - of_int cy) * 32 + of_int ox - of_int ox) / (64 / 2)) / 2) = cy"
    by (simp only: half_diff py_int_of_int)
  ultimately show ?thesis
    by (simp add: screen_to_grid_def grid_to_screen_def Let_def TILE_W_def TILE_H_def)
qed

lemma iso_to_grid_inverse:
  "iso_to_grid (of_int (fst (grid_to_iso cx cy))) (of_int (snd (grid_to_iso cx cy))) = (cx, cy)"
proof -
  have "py_round ((((of_int cx - of_int cy) * 32 + 1248 - 1248) / (64 / 2)
          + ((of_int cx + of_int cy) * 16 + 0 - 0) / (32 / 2)) / 2) = cx"
    by (simp only: half_sum py_round_of_int)
  moreover have "py_round ((((of_int cx + of_int cy) * 16 + 0 - 0) / (32 / 2)
          - ((of_int cx - of_int cy) * 32 + 1248 - 1248) / (64 / 2)) / 2) = cy"
    by (simp only: half_diff py_round_of_int)
  ultimately show ?thesis
    by (simp add: iso_to_grid_def grid_to_iso_def Let_def TILE_W_def TILE_H_def
        ISO_ORIGIN_X_def ISO_ORIGIN_Y_def GRID_H_def)
qed

lemma iso_to_grid_v2_inverse:
  "iso_to_grid_v2 (of_int (fst (grid_to_iso_v2 cx cy))) (of_int (snd (grid_to_iso_v2 cx cy)))
     = (cx, cy)"
proof -
  have "py_round ((((of_int cx - of_int cy) * 32 + 0 - 0) / (64 / 2)
          + ((of_int cx + of_int cy) * 16 + 0 - 0) / (32 / 2)) / 2) = cx"
    by (simp only: half_sum py_round_of_int)
  moreover have "py_round ((((of_int cx + of_int cy) * 16 + 0 - 0) / (32 / 2)
          - ((of_int cx - of_int cy) * 32 + 0 - 0) / (64 / 2)) / 2) = cy"
    by (simp only: half_diff py_round_of_int)
  ultimately show ?thesis
    by (simp add: iso_to_grid_v2_def grid_to_iso_v2_def Let_def TILE_W_def TILE_H_def)
qed

lemma py_round_near:
  assumes "\<bar>d\<bar> < 1 / 2"
  shows "py_round (of_int n + d) = n"
proof (cases "0 \<le> d")
  case True
  then have "\<lfloor>of_int n + d\<rfloor> = n"
    using assms by linarith
  then show ?thesis
    using True assms by (simp add: py_round_def Let_def)
next
  case False
  then have fl: "\<lfloor>of_int n + d\<rfloor> = n - 1"
    using assms by linarith
  have "of_int n + d - of_int (n - 1) = 1 + d"
    by simp
  then show ?thesis
    using False assms fl by (simp add: py_round_def Let_def)
qed

lemma near_sum:
  "(((a - b) * 32 + c + ex - c) / (64 / 2) + ((a + b) * 16 + d + ey - d) / (32 / 2)) / 2
     = (a::real) + (ex / 32 + ey / 16) / 2"
  by (simp add: field_simps)

lemma near_diff:
  "(((a + b) * 16 + d + ey - d) / (32 / 2) - ((a - b) * 32 + c + ex - c) / (64 / 2)) / 2
     = (b::real) + (ey / 16 - ex / 32) / 2"
  by (simp add: field_simps)

text \<open>
  The rounding inverse of v2 tolerates an error of a quarter tile in the point it is given:
  the camera offset of v2 is a float once the view has been panned, and adding and
  subtracting it returns the projected point only up to a rounding error.
\<close>

lemma iso_to_grid_v2_near:
  assumes "\<bar>ex\<bar> \<le> 8" and "\<bar>ey\<bar> \<le> 4"
  shows "iso_to_grid_v2 (of_int (fst (grid_to_iso_v2 cx cy)) + ex)
                        (of_int (snd (grid_to_iso_v2 cx cy)) + ey) = (cx, cy)"
proof -
  have d1: "\<bar>(ex / 32 + ey / 16) / 2\<bar> < 1 / 2" and d2: "\<bar>(ey / 16 - ex / 32) / 2\<bar> < 1 / 2"
    using assms by (simp_all add: abs_if split: if_splits)
  have "py_round ((((of_int cx - of_int cy) * 32 + 0 + ex - 0) / (64 / 2)
          + ((of_int cx + of_int cy) * 16 + 0 + ey - 0) / (32 / 2)) / 2) = cx"
    by (simp only: near_sum py_round_near [OF d1])
  moreover have "py_round ((((of_int cx + of_int cy) * 16 + 0 + ey - 0) / (32 / 2)
          - ((of_int cx - of_int cy) * 32 + 0 + ex - 0) / (64 / 2)) / 2) = cy"
    by (simp only: near_diff py_round_near [OF d2])
  ultimately show ?thesis
    by (simp add: iso_to_grid_v2_def grid_to_iso_v2_def Let_def TILE_W_def TILE_H_def)
qed

text \<open>
  Claim C2. For every in-bounds grid cell and every camera offset, projecting the cell to
  the screen and projecting the result back with the same offset gives the cell again.
  The base pair takes the offset as arguments; the v2 and v10 pairs take none, and their
  callers add the camera offset to the projected point and subtract it before the inverse.
  On in-bounds cells and integer offsets every float operation involved is exact (small
  integers divided by powers of two), so the real-number model agrees with the floats;
  the base and v10 variants only ever hold integer offsets. The offset of v2 becomes a
  float, so for v2 the point handed back to the inverse is also allowed an error
  \<open>(ex, ey)\<close> of up to a quarter tile. (The click handler of v2 shifts the point by half a
  tile before it calls the inverse; that shift belongs to the handler, not to the pair.)
\<close>

theorem projection_round_trip:
  assumes "in_bounds (cx, cy)" and "\<bar>ex\<bar> \<le> 8" and "\<bar>ey\<bar> \<le> 4"
  shows "screen_to_grid (fst (grid_to_screen cx cy ox oy)) (snd (grid_to_screen cx cy ox oy)) ox oy
           = (cx, cy) \<and>
         iso_to_grid (of_int ((cam_x + fst (grid_to_iso cx cy)) - cam_x))
                     (of_int ((cam_y + snd (grid_to_iso cx cy)) - cam_y)) = (cx, cy) \<and>
         iso_to_grid_v2 (of_int ((cam_x + fst (grid_to_iso_v2 cx cy)) - cam_x))
                        (of_int ((cam_y + snd (grid_to_iso_v2 cx cy)) - cam_y)) = (cx, cy) \<and>
         iso_to_grid_v2 (of_int (fst (grid_to_iso_v2 cx cy)) + ex)
                        (of_int (snd (grid_to_iso_v2 cx cy)) + ey) = (cx, cy)"
proof -
  have "(cam_x + fst (grid_to_iso cx cy)) - cam_x = fst (grid_to_iso cx cy)"
       "(cam_y + snd (grid_to_iso cx cy)) - cam_y = snd (grid_to_iso cx cy)"
       "(cam_x + fst (grid_to_iso_v2 cx cy)) - cam_x = fst (grid_to_iso_v2 cx cy)"
       "(cam_y + snd (grid_to_iso_v2 cx cy)) - cam_y = snd (grid_to_iso_v2 cx cy)"
    by simp_all
  then show ?thesis
    by (simp only: screen_to_grid_inverse iso_to_grid_inverse iso_to_grid_v2_inverse
        iso_to_grid_v2_near [OF assms(2) assms(3)] simp_thms)
qed

theorem projection_round_trip_witness:
  "in_bounds (3, 39) \<and>
   screen_to_grid (fst (grid_to_screen 3 39 640 160)) (snd (grid_to_screen 3 39 640 160)) 640 160
     = (3, 39) \<and>
   iso_to_grid (of_int ((- 5 + fst (grid_to_iso 3 39)) - (- 5)))
               (of_int ((7 + snd (grid_to_iso 3 39)) - 7)) = (3, 39) \<and>
   iso_to_grid_v2 (of_int (fst (grid_to_iso_v2 3 39)) + 1 / 4)
                  (of_int (snd (grid_to_iso_v2 3 39)) + - (1 / 8)) = (3, 39)"
proof -
  have b: "in_bounds (3, 39)"
    by (simp add: in_bounds_def GRID_W_def GRID_H_def)
  have e: "\<bar>1 / 4 :: real\<bar> \<le> 8" "\<bar>- (1 / 8) :: real\<bar> \<le> 4"
    by simp_all
  show ?thesis
    using b projection_round_trip [OF b e, of 640 160 "- 5" 7] by simp
qed

section \<open>Obstacle set: fixed walkable cells\<close>

lemma IsoMap_add_fold_excluded:
  "c \<in> set excluded \<Longrightarrow> c \<notin> B \<Longrightarrow> c \<notin> fold (IsoMap_add excluded) draws B"
proof (induction draws arbitrary: B)
  case Nil
  then show ?case by simp
next
  case (Cons d draws)
  have "c \<notin> IsoMap_add excluded d B"
    using Cons.prems by (auto simp: IsoMap_add_def)
  then show ?case
    using Cons.IH [of "IsoMap_add excluded d B"] Cons.prems(1) by simp
qed

text \<open>
  Claim C9. After \<^verbatim>\<open>IsoMap\<close> construction none of the cells named in the exclusion check
  is in the obstacle set, whatever pairs the seeded generator draws: \<open>(10,10)\<close> and
  \<open>(20,20)\<close> in v2 and v10; \<open>(10,10)\<close>, \<open>(11,10)\<close> and \<open>(10,11)\<close> in the base variant.
\<close>

theorem IsoMap_init_keeps_fixed_cells_walkable:
  "(10, 10) \<notin> IsoMap_init draws \<and> (20, 20) \<notin> IsoMap_init draws \<and>
   (10, 10) \<notin> IsoMap_init_base draws \<and> (11, 10) \<notin> IsoMap_init_base draws \<and>
   (10, 11) \<notin> IsoMap_init_base draws"
proof -
  have a: "(10, 10) \<notin> fold (IsoMap_add [(10, 10), (20, 20)]) draws {}"
    by (rule IsoMap_add_fold_excluded) simp_all
  have b: "(20, 20) \<notin> fold (IsoMap_add [(10, 10), (20, 20)]) draws {}"
    by (rule IsoMap_add_fold_excluded) simp_all
  have c: "(10, 10) \<notin> fold (IsoMap_add [(10, 10), (11, 10), (10, 11)]) draws {}"
    by (rule IsoMap_add_fold_excluded) simp_all
  have d: "(11, 10) \<notin> fold (IsoMap_add [(10, 10), (11, 10), (10, 11)]) draws {}"
    by (rule IsoMap_add_fold_excluded) simp_all
  have e: "(10, 11) \<notin> fold (IsoMap_add [(10, 10), (11, 10), (10, 11)]) draws {}"
    by (rule IsoMap_add_fold_excluded) simp_all
  show ?thesis
    unfolding IsoMap_init_def IsoMap_init_base_def using a b c d e by blast
qed

theorem IsoMap_init_keeps_fixed_cells_walkable_witness:
  "(10, 10) \<notin> IsoMap_init [(10, 10), (3, 4), (20, 20), (11, 10)] \<and>
   (20, 20) \<notin> IsoMap_init [(10, 10), (3, 4), (20, 20), (11, 10)] \<and>
   (11, 10) \<notin> IsoMap_init_base [(10, 10), (3, 4), (20, 20), (11, 10)]"
  using IsoMap_init_keeps_fixed_cells_walkable [of "[(10, 10), (3, 4), (20, 20), (11, 10)]"]
  by blast

section \<open>Path-following agent: float arithmetic\<close>

lemma bitlen_eq:
  assumes "2 ^ n \<le> a" and "a < 2 ^ Suc n"
  shows "bitlen a = int n + 1"
proof -
  have "bitlen a \<le> int (Suc n) \<longleftrightarrow> 0 \<le> int (Suc n) \<and> a < 2 ^ nat (int (Suc n))"
    by (rule bitlen_le_iff_power)
  then have "bitlen a \<le> int (Suc n)"
    using assms(2) by (simp only: nat_int) simp
  moreover have "int (Suc n) \<le> bitlen a \<longleftrightarrow> int (Suc n) \<le> 0 \<or> 2 ^ (nat (int (Suc n)) - 1) \<le> a"
    by (rule bitlen_ge_iff_power)
  then have "int (Suc n) \<le> bitlen a"
    using assms(1) by (simp only: nat_int) simp
  ultimately show ?thesis by simp
qed

text \<open>
  In the binade \<open>2\<^bsup>e\<^esup> \<le> \<bar>x\<bar> < 2\<^bsup>e+1\<^esup>\<close> with \<open>e = k - 1022\<close>, rounding is to the nearest multiple of
  \<open>2\<^bsup>e-52\<^esup>\<close>, which is \<open>2\<^bsup>k\<^esup>\<close> units.
\<close>

lemma double_round_normal:
  assumes lo: "2 ^ (52 + k) \<le> \<bar>x\<bar> * 2 ^ 1074" and hi: "\<bar>x\<bar> * 2 ^ 1074 < 2 ^ (53 + k)"
  shows "double_round x = of_int (py_round (x * 2 ^ 1074 / 2 ^ k)) * 2 ^ k / 2 ^ 1074"
proof -
  have a: "\<bar>x * 2 ^ 1074\<bar> = \<bar>x\<bar> * 2 ^ 1074"
    by (simp add: abs_mult)
  have "(2 :: int) ^ (52 + k) \<le> \<lfloor>\<bar>x\<bar> * 2 ^ 1074\<rfloor>"
    using lo by (simp add: le_floor_iff)
  moreover have "\<lfloor>\<bar>x\<bar> * 2 ^ 1074\<rfloor> < (2 :: int) ^ Suc (52 + k)"
    using hi by (simp add: floor_less_iff)
  ultimately have "bitlen \<lfloor>\<bar>x\<bar> * 2 ^ 1074\<rfloor> = int (52 + k) + 1"
    by (rule bitlen_eq)
  then have "nat (bitlen \<lfloor>\<bar>x * 2 ^ 1074\<bar>\<rfloor> - 53) = k"
    by (simp only: a)
  then show ?thesis
    by (simp only: double_round_def Let_def)
qed

lemma py_round_nonpos: "r \<le> 0 \<Longrightarrow> py_round r \<le> 0"
proof -
  assume r: "r \<le> 0"
  show ?thesis
  proof (cases "r = 0")
    case True
    then show ?thesis by (simp add: py_round_def)
  next
    case False
    then have "\<lfloor>r\<rfloor> \<le> - 1"
      using r by (simp add: floor_le_iff)
    then show ?thesis
      by (simp add: py_round_def Let_def)
  qed
qed

lemma double_round_nonpos: "x \<le> 0 \<Longrightarrow> double_round x \<le> 0"
proof -
  assume x: "x \<le> 0"
  define k where "k = nat (bitlen \<lfloor>\<bar>x * 2 ^ 1074\<bar>\<rfloor> - 53)"
  have "x * 2 ^ 1074 / 2 ^ k \<le> 0"
    using x by (simp add: divide_nonpos_pos mult_nonpos_nonneg)
  then have "py_round (x * 2 ^ 1074 / 2 ^ k) \<le> 0"
    by (rule py_round_nonpos)
  then have "of_int (py_round (x * 2 ^ 1074 / 2 ^ k)) * (2 :: real) ^ k / 2 ^ 1074 \<le> 0"
    by (simp add: divide_nonpos_pos mult_nonpos_nonneg)
  then show ?thesis
    by (simp only: double_round_def Let_def k_def)
qed

lemma fsub_nonpos: "a \<le> b \<Longrightarrow> fsub a b \<le> 0"
  unfolding fsub_def by (rule double_round_nonpos) simp

text \<open>The floats that occur below, each obtained by rounding in its binade.\<close>

lemma double_round_0_10: "double_round (10 / 100) = 7205759403792794 / 2 ^ 56"
proof -
  have r: "py_round ((10 / 100) * 2 ^ 56) = 7205759403792794"
    by (simp add: py_round_def Let_def)
  have s: "((10 / 100) :: real) * 2 ^ 1074 / 2 ^ 1018 = (10 / 100) * 2 ^ 56"
    by simp
  have "double_round (10 / 100) =
          of_int (py_round ((10 / 100) * 2 ^ 1074 / 2 ^ 1018)) * 2 ^ 1018 / 2 ^ 1074"
    by (rule double_round_normal) simp_all
  then show ?thesis
    by (simp only: s r) simp
qed

lemma double_round_0_12: "double_round (12 / 100) = 8646911284551352 / 2 ^ 56"
proof -
  have r: "py_round ((12 / 100) * 2 ^ 56) = 8646911284551352"
    by (simp add: py_round_def Let_def)
  have s: "((12 / 100) :: real) * 2 ^ 1074 / 2 ^ 1018 = (12 / 100) * 2 ^ 56"
    by simp
  have "double_round (12 / 100) =
          of_int (py_round ((12 / 100) * 2 ^ 1074 / 2 ^ 1018)) * 2 ^ 1018 / 2 ^ 1074"
    by (rule double_round_normal) simp_all
  then show ?thesis
    by (simp only: s r) simp
qed

lemma double_round_0_012: "double_round (12 / 1000) = 6917529027641082 / 2 ^ 59"
proof -
  have r: "py_round ((12 / 1000) * 2 ^ 59) = 6917529027641082"
    by (simp add: py_round_def Let_def)
  have s: "((12 / 1000) :: real) * 2 ^ 1074 / 2 ^ 1015 = (12 / 1000) * 2 ^ 59"
    by simp
  have "double_round (12 / 1000) =
          of_int (py_round ((12 / 1000) * 2 ^ 1074 / 2 ^ 1015)) * 2 ^ 1015 / 2 ^ 1074"
    by (rule double_round_normal) simp_all
  then show ?thesis
    by (simp only: s r) simp
qed

lemma double_round_float_0_12: "double_round (8646911284551352 / 2 ^ 56) = 8646911284551352 / 2 ^ 56"
proof -
  have r: "py_round ((8646911284551352 / 2 ^ 56) * 2 ^ 56) = 8646911284551352"
    by (simp add: py_round_def Let_def)
  have s: "((8646911284551352 / 2 ^ 56) :: real) * 2 ^ 1074 / 2 ^ 1018 = (8646911284551352 / 2 ^ 56) * 2 ^ 56"
    by simp
  have "double_round (8646911284551352 / 2 ^ 56) =
          of_int (py_round ((8646911284551352 / 2 ^ 56) * 2 ^ 1074 / 2 ^ 1018)) * 2 ^ 1018 / 2 ^ 1074"
    by (rule double_round_normal) simp_all
  then show ?thesis
    by (simp only: s r) simp
qed

lemma double_round_one: "double_round (1) = 1"
proof -
  have r: "py_round ((1) * 2 ^ 52) = 4503599627370496"
    by (simp add: py_round_def Let_def)
  have s: "((1) :: real) * 2 ^ 1074 / 2 ^ 1022 = (1) * 2 ^ 52"
    by simp
  have "double_round (1) =
          of_int (py_round ((1) * 2 ^ 1074 / 2 ^ 1022)) * 2 ^ 1022 / 2 ^ 1074"
    by (rule double_round_normal) simp_all
  then show ?thesis
    by (simp only: s r) simp
qed

lemma double_round_frame: "double_round (1 / 64) = 1 / 64"
proof -
  have r: "py_round ((1 / 64) * 2 ^ 58) = 4503599627370496"
    by (simp add: py_round_def Let_def)
  have s: "((1 / 64) :: real) * 2 ^ 1074 / 2 ^ 1016 = (1 / 64) * 2 ^ 58"
    by simp
  have "double_round (1 / 64) =
          of_int (py_round ((1 / 64) * 2 ^ 1074 / 2 ^ 1016)) * 2 ^ 1016 / 2 ^ 1074"
    by (rule double_round_normal) simp_all
  then show ?thesis
    by (simp only: s r) simp
qed

lemma double_round_interval_minus_frame: "double_round (7205759403792794 / 2 ^ 56 - 1 / 64) = 6079859496950170 / 2 ^ 56"
proof -
  have r: "py_round ((7205759403792794 / 2 ^ 56 - 1 / 64) * 2 ^ 56) = 6079859496950170"
    by (simp add: py_round_def Let_def)
  have s: "((7205759403792794 / 2 ^ 56 - 1 / 64) :: real) * 2 ^ 1074 / 2 ^ 1018 = (7205759403792794 / 2 ^ 56 - 1 / 64) * 2 ^ 56"
    by simp
  have "double_round (7205759403792794 / 2 ^ 56 - 1 / 64) =
          of_int (py_round ((7205759403792794 / 2 ^ 56 - 1 / 64) * 2 ^ 1074 / 2 ^ 1018)) * 2 ^ 1018 / 2 ^ 1074"
    by (rule double_round_normal) simp_all
  then show ?thesis
    by (simp only: s r) simp
qed

lemma twelve_ms_tick_1: "double_round (0 + 6917529027641082 / 2 ^ 59) = 6917529027641082 / 2 ^ 59"
proof -
  have r: "py_round ((0 + 6917529027641082 / 2 ^ 59) * 2 ^ 59) = 6917529027641082"
    by (simp add: py_round_def Let_def)
  have s: "((0 + 6917529027641082 / 2 ^ 59) :: real) * 2 ^ 1074 / 2 ^ 1015 = (0 + 6917529027641082 / 2 ^ 59) * 2 ^ 59"
    by simp
  have "double_round (0 + 6917529027641082 / 2 ^ 59) =
          of_int (py_round ((0 + 6917529027641082 / 2 ^ 59) * 2 ^ 1074 / 2 ^ 1015)) * 2 ^ 1015 / 2 ^ 1074"
    by (rule double_round_normal) simp_all
  then show ?thesis
    by (simp only: s r) simp
qed

lemma twelve_ms_tick_2: "double_round (6917529027641082 / 2 ^ 59 + 6917529027641082 / 2 ^ 59) = 6917529027641082 / 2 ^ 58"
proof -
  have r: "py_round ((6917529027641082 / 2 ^ 59 + 6917529027641082 / 2 ^ 59) * 2 ^ 58) = 6917529027641082"
    by (simp add: py_round_def Let_def)
  have s: "((6917529027641082 / 2 ^ 59 + 6917529027641082 / 2 ^ 59) :: real) * 2 ^ 1074 / 2 ^ 1016 = (6917529027641082 / 2 ^ 59 + 6917529027641082 / 2 ^ 59) * 2 ^ 58"
    by simp
  have "double_round (6917529027641082 / 2 ^ 59 + 6917529027641082 / 2 ^ 59) =
          of_int (py_round ((6917529027641082 / 2 ^ 59 + 6917529027641082 / 2 ^ 59) * 2 ^ 1074 / 2 ^ 1016)) * 2 ^ 1016 / 2 ^ 1074"
    by (rule double_round_normal) simp_all
  then show ?thesis
    by (simp only: s r) simp
qed

lemma twelve_ms_tick_3: "double_round (6917529027641082 / 2 ^ 58 + 6917529027641082 / 2 ^ 59) = 5188146770730812 / 2 ^ 57"
proof -
  have r: "py_round ((6917529027641082 / 2 ^ 58 + 6917529027641082 / 2 ^ 59) * 2 ^ 57) = 5188146770730812"
    by (simp add: py_round_def Let_def)
  have s: "((6917529027641082 / 2 ^ 58 + 6917529027641082 / 2 ^ 59) :: real) * 2 ^ 1074 / 2 ^ 1017 = (6917529027641082 / 2 ^ 58 + 6917529027641082 / 2 ^ 59) * 2 ^ 57"
    by simp
  have "double_round (6917529027641082 / 2 ^ 58 + 6917529027641082 / 2 ^ 59) =
          of_int (py_round ((6917529027641082 / 2 ^ 58 + 6917529027641082 / 2 ^ 59) * 2 ^ 1074 / 2 ^ 1017)) * 2 ^ 1017 / 2 ^ 1074"
    by (rule double_round_normal) simp_all
  then show ?thesis
    by (simp only: s r) simp
qed

lemma twelve_ms_tick_4: "double_round (5188146770730812 / 2 ^ 57 + 6917529027641082 / 2 ^ 59) = 6917529027641082 / 2 ^ 57"
proof -
  have r: "py_round ((5188146770730812 / 2 ^ 57 + 6917529027641082 / 2 ^ 59) * 2 ^ 57) = 6917529027641082"
    by (simp add: py_round_def Let_def)
  have s: "((5188146770730812 / 2 ^ 57 + 6917529027641082 / 2 ^ 59) :: real) * 2 ^ 1074 / 2 ^ 1017 = (5188146770730812 / 2 ^ 57 + 6917529027641082 / 2 ^ 59) * 2 ^ 57"
    by simp
  have "double_round (5188146770730812 / 2 ^ 57 + 6917529027641082 / 2 ^ 59) =
          of_int (py_round ((5188146770730812 / 2 ^ 57 + 6917529027641082 / 2 ^ 59) * 2 ^ 1074 / 2 ^ 1017)) * 2 ^ 1017 / 2 ^ 1074"
    by (rule double_round_normal) simp_all
  then show ?thesis
    by (simp only: s r) simp
qed

lemma twelve_ms_tick_5: "double_round (6917529027641082 / 2 ^ 57 + 6917529027641082 / 2 ^ 59) = 8646911284551352 / 2 ^ 57"
proof -
  have r: "py_round ((6917529027641082 / 2 ^ 57 + 6917529027641082 / 2 ^ 59) * 2 ^ 57) = 8646911284551352"
    by (simp add: py_round_def Let_def)
  have s: "((6917529027641082 / 2 ^ 57 + 6917529027641082 / 2 ^ 59) :: real) * 2 ^ 1074 / 2 ^ 1017 = (6917529027641082 / 2 ^ 57 + 6917529027641082 / 2 ^ 59) * 2 ^ 57"
    by simp
  have "double_round (6917529027641082 / 2 ^ 57 + 6917529027641082 / 2 ^ 59) =
          of_int (py_round ((6917529027641082 / 2 ^ 57 + 6917529027641082 / 2 ^ 59) * 2 ^ 1074 / 2 ^ 1017)) * 2 ^ 1017 / 2 ^ 1074"
    by (rule double_round_normal) simp_all
  then show ?thesis
    by (simp only: s r) simp
qed

lemma twelve_ms_tick_6: "double_round (8646911284551352 / 2 ^ 57 + 6917529027641082 / 2 ^ 59) = 5188146770730811 / 2 ^ 56"
proof -
  have r: "py_round ((8646911284551352 / 2 ^ 57 + 6917529027641082 / 2 ^ 59) * 2 ^ 56) = 5188146770730811"
    by (simp add: py_round_def Let_def)
  have s: "((8646911284551352 / 2 ^ 57 + 6917529027641082 / 2 ^ 59) :: real) * 2 ^ 1074 / 2 ^ 1018 = (8646911284551352 / 2 ^ 57 + 6917529027641082 / 2 ^ 59) * 2 ^ 56"
    by simp
  have "double_round (8646911284551352 / 2 ^ 57 + 6917529027641082 / 2 ^ 59) =
          of_int (py_round ((8646911284551352 / 2 ^ 57 + 6917529027641082 / 2 ^ 59) * 2 ^ 1074 / 2 ^ 1018)) * 2 ^ 1018 / 2 ^ 1074"
    by (rule double_round_normal) simp_all
  then show ?thesis
    by (simp only: s r) simp
qed

lemma twelve_ms_tick_7: "double_round (5188146770730811 / 2 ^ 56 + 6917529027641082 / 2 ^ 59) = 6052837899185946 / 2 ^ 56"
proof -
  have r: "py_round ((5188146770730811 / 2 ^ 56 + 6917529027641082 / 2 ^ 59) * 2 ^ 56) = 6052837899185946"
    by (simp add: py_round_def Let_def)
  have s: "((5188146770730811 / 2 ^ 56 + 6917529027641082 / 2 ^ 59) :: real) * 2 ^ 1074 / 2 ^ 1018 = (5188146770730811 / 2 ^ 56 + 6917529027641082 / 2 ^ 59) * 2 ^ 56"
    by simp
  have "double_round (5188146770730811 / 2 ^ 56 + 6917529027641082 / 2 ^ 59) =
          of_int (py_round ((5188146770730811 / 2 ^ 56 + 6917529027641082 / 2 ^ 59) * 2 ^ 1074 / 2 ^ 1018)) * 2 ^ 1018 / 2 ^ 1074"
    by (rule double_round_normal) simp_all
  then show ?thesis
    by (simp only: s r) simp
qed

lemma twelve_ms_tick_8: "double_round (6052837899185946 / 2 ^ 56 + 6917529027641082 / 2 ^ 59) = 6917529027641081 / 2 ^ 56"
proof -
  have r: "py_round ((6052837899185946 / 2 ^ 56 + 6917529027641082 / 2 ^ 59) * 2 ^ 56) = 6917529027641081"
    by (simp add: py_round_def Let_def)
  have s: "((6052837899185946 / 2 ^ 56 + 6917529027641082 / 2 ^ 59) :: real) * 2 ^ 1074 / 2 ^ 1018 = (6052837899185946 / 2 ^ 56 + 6917529027641082 / 2 ^ 59) * 2 ^ 56"
    by simp
  have "double_round (6052837899185946 / 2 ^ 56 + 6917529027641082 / 2 ^ 59) =
          of_int (py_round ((6052837899185946 / 2 ^ 56 + 6917529027641082 / 2 ^ 59) * 2 ^ 1074 / 2 ^ 1018)) * 2 ^ 1018 / 2 ^ 1074"
    by (rule double_round_normal) simp_all
  then show ?thesis
    by (simp only: s r) simp
qed

lemma twelve_ms_tick_9: "double_round (6917529027641081 / 2 ^ 56 + 6917529027641082 / 2 ^ 59) = 7782220156096216 / 2 ^ 56"
proof -
  have r: "py_round ((6917529027641081 / 2 ^ 56 + 6917529027641082 / 2 ^ 59) * 2 ^ 56) = 7782220156096216"
    by (simp add: py_round_def Let_def)
  have s: "((6917529027641081 / 2 ^ 56 + 6917529027641082 / 2 ^ 59) :: real) * 2 ^ 1074 / 2 ^ 1018 = (6917529027641081 / 2 ^ 56 + 6917529027641082 / 2 ^ 59) * 2 ^ 56"
    by simp
  have "double_round (6917529027641081 / 2 ^ 56 + 6917529027641082 / 2 ^ 59) =
          of_int (py_round ((6917529027641081 / 2 ^ 56 + 6917529027641082 / 2 ^ 59) * 2 ^ 1074 / 2 ^ 1018)) * 2 ^ 1018 / 2 ^ 1074"
    by (rule double_round_normal) simp_all
  then show ?thesis
    by (simp only: s r) simp
qed

lemma twelve_ms_tick_10: "double_round (7782220156096216 / 2 ^ 56 + 6917529027641082 / 2 ^ 59) = 8646911284551351 / 2 ^ 56"
proof -
  have r: "py_round ((7782220156096216 / 2 ^ 56 + 6917529027641082 / 2 ^ 59) * 2 ^ 56) = 8646911284551351"
    by (simp add: py_round_def Let_def)
  have s: "((7782220156096216 / 2 ^ 56 + 6917529027641082 / 2 ^ 59) :: real) * 2 ^ 1074 / 2 ^ 1018 = (7782220156096216 / 2 ^ 56 + 6917529027641082 / 2 ^ 59) * 2 ^ 56"
    by simp
  have "double_round (7782220156096216 / 2 ^ 56 + 6917529027641082 / 2 ^ 59) =
          of_int (py_round ((7782220156096216 / 2 ^ 56 + 6917529027641082 / 2 ^ 59) * 2 ^ 1074 / 2 ^ 1018)) * 2 ^ 1018 / 2 ^ 1074"
    by (rule double_round_normal) simp_all
  then show ?thesis
    by (simp only: s r) simp
qed

lemma twelve_ms_tick_11: "double_round (8646911284551351 / 2 ^ 56 + 6917529027641082 / 2 ^ 59) = 4755801206503243 / 2 ^ 55"
proof -
  have r: "py_round ((8646911284551351 / 2 ^ 56 + 6917529027641082 / 2 ^ 59) * 2 ^ 55) = 4755801206503243"
    by (simp add: py_round_def Let_def)
  have s: "((8646911284551351 / 2 ^ 56 + 6917529027641082 / 2 ^ 59) :: real) * 2 ^ 1074 / 2 ^ 1019 = (8646911284551351 / 2 ^ 56 + 6917529027641082 / 2 ^ 59) * 2 ^ 55"
    by simp
  have "double_round (8646911284551351 / 2 ^ 56 + 6917529027641082 / 2 ^ 59) =
          of_int (py_round ((8646911284551351 / 2 ^ 56 + 6917529027641082 / 2 ^ 59) * 2 ^ 1074 / 2 ^ 1019)) * 2 ^ 1019 / 2 ^ 1074"
    by (rule double_round_normal) simp_all
  then show ?thesis
    by (simp only: s r) simp
qed

lemma float_0_10_val: "float_0_10 = 7205759403792794 / 2 ^ 56"
  unfolding float_0_10_def by (rule double_round_0_10)

lemma float_0_12_val: "float_0_12 = 8646911284551352 / 2 ^ 56"
  unfolding float_0_12_def by (rule double_round_0_12)

lemma float_0_12_below: "float_0_12 < 12 / 100"
  unfolding float_0_12_val by simp

lemma fadd_zero_float_0_12: "fadd 0 float_0_12 = float_0_12"
  unfolding fadd_def float_0_12_val add_0 by (rule double_round_float_0_12)

lemma fadd_zero_one: "fadd 0 1 = 1"
  unfolding fadd_def add_0 by (rule double_round_one)

lemma fadd_zero_frame: "fadd 0 (1 / 64) = 1 / 64"
  unfolding fadd_def add_0 by (rule double_round_frame)

lemma fsub_interval_frame: "fsub float_0_10 (1 / 64) = 6079859496950170 / 2 ^ 56"
  unfolding fsub_def float_0_10_val by (rule double_round_interval_minus_frame)

section \<open>Path-following agent: what a call changes\<close>

lemma update_base_wait:
  assumes "path s = Some (c # rest)" and "fadd (step_timer s) dt = t" and "t < float_0_12"
  shows "update_base dt s = s\<lparr>step_timer := t\<rparr>"
  using assms by (simp add: update_base_def Let_def)

lemma update_base_move:
  assumes "path s = Some (c # rest)" and "fadd (step_timer s) dt = t" and "float_0_12 \<le> t"
  shows "update_base dt s =
           s\<lparr>step_timer := 0, gx := fst c, gy := snd c,
             path := (if rest = [] then None else Some rest)\<rparr>"
  using assms by (simp add: update_base_def Let_def)

text \<open>
  The base agent under ticks of 12 ms, \<^verbatim>\<open>dt = 12 / 1000.0\<close>. The float sum of ten ticks is
  still below the float \<^verbatim>\<open>0.12\<close>, so the agent stays for ten calls and moves on the
  eleventh.
\<close>

lemma base_twelve_ms_ticks:
  "(update_base (double_round (12 / 1000)) ^^ 10) hero_two_cells
     = hero_two_cells\<lparr>step_timer := 8646911284551351 / 2 ^ 56\<rparr> \<and>
   (update_base (double_round (12 / 1000)) ^^ 11) hero_two_cells
     = hero_two_cells\<lparr>step_timer := 0, gx := 11, gy := 10, path := Some [(12, 10)]\<rparr>"
proof -
  define d :: real where "d = double_round (12 / 1000)"
  define t1 :: real where "t1 = 6917529027641082 / 2 ^ 59"
  define t2 :: real where "t2 = 6917529027641082 / 2 ^ 58"
  define t3 :: real where "t3 = 5188146770730812 / 2 ^ 57"
  define t4 :: real where "t4 = 6917529027641082 / 2 ^ 57"
  define t5 :: real where "t5 = 8646911284551352 / 2 ^ 57"
  define t6 :: real where "t6 = 5188146770730811 / 2 ^ 56"
  define t7 :: real where "t7 = 6052837899185946 / 2 ^ 56"
  define t8 :: real where "t8 = 6917529027641081 / 2 ^ 56"
  define t9 :: real where "t9 = 7782220156096216 / 2 ^ 56"
  define t10 :: real where "t10 = 8646911284551351 / 2 ^ 56"
  define t11 :: real where "t11 = 4755801206503243 / 2 ^ 55"
  have dv: "d = 6917529027641082 / 2 ^ 59"
    unfolding d_def by (rule double_round_0_012)
  have a1: "fadd 0 d = t1"
    unfolding fadd_def dv t1_def by (rule twelve_ms_tick_1)
  have a2: "fadd t1 d = t2"
    unfolding fadd_def dv t1_def t2_def by (rule twelve_ms_tick_2)
  have a3: "fadd t2 d = t3"
    unfolding fadd_def dv t2_def t3_def by (rule twelve_ms_tick_3)
  have a4: "fadd t3 d = t4"
    unfolding fadd_def dv t3_def t4_def by (rule twelve_ms_tick_4)
  have a5: "fadd t4 d = t5"
    unfolding fadd_def dv t4_def t5_def by (rule twelve_ms_tick_5)
  have a6: "fadd t5 d = t6"
    unfolding fadd_def dv t5_def t6_def by (rule twelve_ms_tick_6)
  have a7: "fadd t6 d = t7"
    unfolding fadd_def dv t6_def t7_def by (rule twelve_ms_tick_7)
  have a8: "fadd t7 d = t8"
    unfolding fadd_def dv t7_def t8_def by (rule twelve_ms_tick_8)
  have a9: "fadd t8 d = t9"
    unfolding fadd_def dv t8_def t9_def by (rule twelve_ms_tick_9)
  have a10: "fadd t9 d = t10"
    unfolding fadd_def dv t9_def t10_def by (rule twelve_ms_tick_10)
  have a11: "fadd t10 d = t11"
    unfolding fadd_def dv t10_def t11_def by (rule twelve_ms_tick_11)
  have l1: "t1 < float_0_12"
    unfolding t1_def float_0_12_val by simp
  have l2: "t2 < float_0_12"
    unfolding t2_def float_0_12_val by simp
  have l3: "t3 < float_0_12"
    unfolding t3_def float_0_12_val by simp
  have l4: "t4 < float_0_12"
    unfolding t4_def float_0_12_val by simp
  have l5: "t5 < float_0_12"
    unfolding t5_def float_0_12_val by simp
  have l6: "t6 < float_0_12"
    unfolding t6_def float_0_12_val by simp
  have l7: "t7 < float_0_12"
    unfolding t7_def float_0_12_val by simp
  have l8: "t8 < float_0_12"
    unfolding t8_def float_0_12_val by simp
  have l9: "t9 < float_0_12"
    unfolding t9_def float_0_12_val by simp
  have l10: "t10 < float_0_12"
    unfolding t10_def float_0_12_val by simp
  have l11: "float_0_12 \<le> t11"
    unfolding t11_def float_0_12_val by simp
  have u1: "update_base d (hero_two_cells) = hero_two_cells\<lparr>step_timer := t1\<rparr>"
    using update_base_wait [of "hero_two_cells" "(11, 10)" "[(12, 10)]" d t1] a1 l1
    by (simp add: hero_two_cells_def hero0_def)
  have u2: "update_base d (hero_two_cells\<lparr>step_timer := t1\<rparr>) = hero_two_cells\<lparr>step_timer := t2\<rparr>"
    using update_base_wait [of "hero_two_cells\<lparr>step_timer := t1\<rparr>" "(11, 10)" "[(12, 10)]" d t2] a2 l2
    by (simp add: hero_two_cells_def hero0_def)
  have u3: "update_base d (hero_two_cells\<lparr>step_timer := t2\<rparr>) = hero_two_cells\<lparr>step_timer := t3\<rparr>"
    using update_base_wait [of "hero_two_cells\<lparr>step_timer := t2\<rparr>" "(11, 10)" "[(12, 10)]" d t3] a3 l3
    by (simp add: hero_two_cells_def hero0_def)
  have u4: "update_base d (hero_two_cells\<lparr>step_timer := t3\<rparr>) = hero_two_cells\<lparr>step_timer := t4\<rparr>"
    using update_base_wait [of "hero_two_cells\<lparr>step_timer := t3\<rparr>" "(11, 10)" "[(12, 10)]" d t4] a4 l4
    by (simp add: hero_two_cells_def hero0_def)
  have u5: "update_base d (hero_two_cells\<lparr>step_timer := t4\<rparr>) = hero_two_cells\<lparr>step_timer := t5\<rparr>"
    using update_base_wait [of "hero_two_cells\<lparr>step_timer := t4\<rparr>" "(11, 10)" "[(12, 10)]" d t5] a5 l5
    by (simp add: hero_two_cells_def hero0_def)
  have u6: "update_base d (hero_two_cells\<lparr>step_timer := t5\<rparr>) = hero_two_cells\<lparr>step_timer := t6\<rparr>"
    using update_base_wait [of "hero_two_cells\<lparr>step_timer := t5\<rparr>" "(11, 10)" "[(12, 10)]" d t6] a6 l6
    by (simp add: hero_two_cells_def hero0_def)
  have u7: "update_base d (hero_two_cells\<lparr>step_timer := t6\<rparr>) = hero_two_cells\<lparr>step_timer := t7\<rparr>"
    using update_base_wait [of "hero_two_cells\<lparr>step_timer := t6\<rparr>" "(11, 10)" "[(12, 10)]" d t7] a7 l7
    by (simp add: hero_two_cells_def hero0_def)
  have u8: "update_base d (hero_two_cells\<lparr>step_timer := t7\<rparr>) = hero_two_cells\<lparr>step_timer := t8\<rparr>"
    using update_base_wait [of "hero_two_cells\<lparr>step_timer := t7\<rparr>" "(11, 10)" "[(12, 10)]" d t8] a8 l8
    by (simp add: hero_two_cells_def hero0_def)
  have u9: "update_base d (hero_two_cells\<lparr>step_timer := t8\<rparr>) = hero_two_cells\<lparr>step_timer := t9\<rparr>"
    using update_base_wait [of "hero_two_cells\<lparr>step_timer := t8\<rparr>" "(11, 10)" "[(12, 10)]" d t9] a9 l9
    by (simp add: hero_two_cells_def hero0_def)
  have u10: "update_base d (hero_two_cells\<lparr>step_timer := t9\<rparr>) = hero_two_cells\<lparr>step_timer := t10\<rparr>"
    using update_base_wait [of "hero_two_cells\<lparr>step_timer := t9\<rparr>" "(11, 10)" "[(12, 10)]" d t10] a10 l10
    by (simp add: hero_two_cells_def hero0_def)
  have u11: "update_base d (hero_two_cells\<lparr>step_timer := t10\<rparr>)
               = hero_two_cells\<lparr>step_timer := 0, gx := 11, gy := 10, path := Some [(12, 10)]\<rparr>"
    using update_base_move [of "hero_two_cells\<lparr>step_timer := t10\<rparr>" "(11, 10)" "[(12, 10)]" d t11]
          a11 l11
    by (simp add: hero_two_cells_def hero0_def)
  have ten: "(update_base d ^^ 10) hero_two_cells = hero_two_cells\<lparr>step_timer := t10\<rparr>"
    by (simp add: eval_nat_numeral u1 u2 u3 u4 u5 u6 u7 u8 u9 u10)
  have "(update_base d ^^ 11) hero_two_cells = update_base d ((update_base d ^^ 10) hero_two_cells)"
    by (simp add: eval_nat_numeral)
  then have eleven: "(update_base d ^^ 11) hero_two_cells
                       = hero_two_cells\<lparr>step_timer := 0, gx := 11, gy := 10, path := Some [(12, 10)]\<rparr>"
    by (simp only: ten u11)
  show ?thesis
    using ten eleven unfolding d_def t10_def by (rule conjI)
qed

text \<open>
  Claim C3 as stated: a Moving agent with \<open>k\<close> or more cells left advances \<open>k\<close> cells in
  one \<^verbatim>\<open>update\<close> call whose \<open>dt\<close> spans \<open>k\<close> per-tile intervals beyond the timer. It fails
  for \<open>k = 2\<close> in every variant: with two cells left, the timer at zero and \<open>dt = 1\<close> (more
  than eight intervals), the call consumes one cell only.
\<close>

theorem update_multi_cell_counterexample:
  "path hero_two_cells = Some [(11, 10), (12, 10)] \<and>
   2 \<le> remaining hero_two_cells \<and>
   step_timer hero_two_cells + 2 * float_0_10 \<le> 1 \<and>
   step_timer hero_two_cells + 2 * float_0_12 \<le> 1 \<and>
   cells_advanced hero_two_cells (update 1 hero_two_cells) \<noteq> 2 \<and>
   (gx (update 1 hero_two_cells), gy (update 1 hero_two_cells)) = (11, 10) \<and>
   path (update 1 hero_two_cells) = Some [(12, 10)] \<and>
   cells_advanced hero_two_cells (update_base 1 hero_two_cells) \<noteq> 2 \<and>
   (gx (update_base 1 hero_two_cells), gy (update_base 1 hero_two_cells)) = (11, 10) \<and>
   path (update_base 1 hero_two_cells) = Some [(12, 10)]"
proof -
  have a: "\<not> 0 < fsub 0 1"
    using fsub_nonpos [of 0 1] by simp
  have b: "float_0_12 \<le> fadd 0 1"
    unfolding fadd_zero_one float_0_12_val by simp
  have c: "2 * float_0_10 \<le> 1" "2 * float_0_12 \<le> 1"
    unfolding float_0_10_val float_0_12_val by simp_all
  show ?thesis
    using a b c
    by (simp add: hero_two_cells_def hero0_def update_def update_base_def cells_advanced_def
        remaining_def)
qed

text \<open>
  Claim C3, amended. A single \<^verbatim>\<open>update\<close> call advances a Moving agent by at most one cell,
  however large \<open>dt\<close> is. In v2 and v10 the call subtracts \<open>dt\<close> from the timer in float
  arithmetic: if the difference is not positive, the agent moves to the head of its path,
  the rest of the path remains and the timer restarts at the float \<^verbatim>\<open>0.10\<close>; if it is
  positive, nothing moves and the timer keeps the difference. In the base variant the
  call adds \<open>dt\<close> to the timer in float arithmetic: if the sum has reached the float
  \<^verbatim>\<open>0.12\<close>, the agent moves to the head of its path, the rest of the path remains (absent
  when nothing is left) and the timer restarts at zero; if it has not, nothing moves and
  the timer keeps the sum.
\<close>

theorem update_advances_at_most_one_cell:
  assumes "path s = Some (c # rest)"
  shows "(fsub (step_timer s) dt \<le> 0 \<longrightarrow>
            (gx (update dt s), gy (update dt s)) = c \<and> path (update dt s) = Some rest \<and>
            step_timer (update dt s) = float_0_10 \<and>
            cells_advanced s (update dt s) = 1) \<and>
         (0 < fsub (step_timer s) dt \<longrightarrow>
            (gx (update dt s), gy (update dt s)) = (gx s, gy s) \<and> path (update dt s) = path s \<and>
            step_timer (update dt s) = fsub (step_timer s) dt \<and>
            cells_advanced s (update dt s) = 0) \<and>
         (float_0_12 \<le> fadd (step_timer s) dt \<longrightarrow>
            (gx (update_base dt s), gy (update_base dt s)) = c \<and>
            path (update_base dt s) = (if rest = [] then None else Some rest) \<and>
            step_timer (update_base dt s) = 0 \<and>
            cells_advanced s (update_base dt s) = 1) \<and>
         (fadd (step_timer s) dt < float_0_12 \<longrightarrow>
            (gx (update_base dt s), gy (update_base dt s)) = (gx s, gy s) \<and>
            path (update_base dt s) = path s \<and>
            step_timer (update_base dt s) = fadd (step_timer s) dt \<and>
            cells_advanced s (update_base dt s) = 0) \<and>
         cells_advanced s (update dt s) \<le> 1 \<and>
         cells_advanced s (update_base dt s) \<le> 1"
  using assms
  by (auto simp: update_def update_base_def cells_advanced_def remaining_def Let_def)

theorem update_advances_at_most_one_cell_witness:
  "path hero_two_cells = Some [(11, 10), (12, 10)] \<and>
   fsub (step_timer hero_two_cells) 1 \<le> 0 \<and>
   (gx (update 1 hero_two_cells), gy (update 1 hero_two_cells)) = (11, 10) \<and>
   path (update 1 hero_two_cells) = Some [(12, 10)] \<and>
   step_timer (update 1 hero_two_cells) = float_0_10 \<and>
   0 < fsub (step_timer (hero_two_cells\<lparr>step_timer := float_0_10\<rparr>)) (1 / 64) \<and>
   path (update (1 / 64) (hero_two_cells\<lparr>step_timer := float_0_10\<rparr>))
     = Some [(11, 10), (12, 10)] \<and>
   (gx (update (1 / 64) (hero_two_cells\<lparr>step_timer := float_0_10\<rparr>)),
    gy (update (1 / 64) (hero_two_cells\<lparr>step_timer := float_0_10\<rparr>))) = (10, 10) \<and>
   float_0_12 \<le> fadd (step_timer hero_two_cells) float_0_12 \<and>
   (gx (update_base float_0_12 hero_two_cells), gy (update_base float_0_12 hero_two_cells))
     = (11, 10) \<and>
   path (update_base float_0_12 hero_two_cells) = Some [(12, 10)] \<and>
   step_timer (update_base float_0_12 hero_two_cells) = 0 \<and>
   fadd (step_timer hero_two_cells) (1 / 64) < float_0_12 \<and>
   path (update_base (1 / 64) hero_two_cells) = Some [(11, 10), (12, 10)] \<and>
   (gx (update_base (1 / 64) hero_two_cells), gy (update_base (1 / 64) hero_two_cells))
     = (10, 10)"
proof -
  have a: "fsub 0 1 \<le> 0"
    by (rule fsub_nonpos) simp
  have b: "0 < fsub float_0_10 (1 / 64)"
    unfolding fsub_interval_frame by simp
  have c: "float_0_12 \<le> fadd 0 float_0_12"
    unfolding fadd_zero_float_0_12 by simp
  have d: "fadd 0 (1 / 64) < float_0_12"
    unfolding fadd_zero_frame float_0_12_val by simp
  show ?thesis
    using a b c d
          update_advances_at_most_one_cell [of hero_two_cells "(11, 10)" "[(12, 10)]" 1]
          update_advances_at_most_one_cell
            [of "hero_two_cells\<lparr>step_timer := float_0_10\<rparr>" "(11, 10)" "[(12, 10)]" "1 / 64"]
          update_advances_at_most_one_cell [of hero_two_cells "(11, 10)" "[(12, 10)]" float_0_12]
          update_advances_at_most_one_cell [of hero_two_cells "(11, 10)" "[(12, 10)]" "1 / 64"]
    by (simp add: hero_two_cells_def hero0_def)
qed

text \<open>
  Claim C6 as stated: after \<^verbatim>\<open>set_path\<close> with a path that is non-empty once trimmed, the
  timer is reset to the per-tile interval. It fails: the default agent at \<open>(10,10)\<close> given
  \<open>[(10,10), (11,10)]\<close> keeps its timer at zero.
\<close>

theorem set_path_timer_counterexample:
  "path (set_path [(10, 10), (11, 10)] hero0) = Some [(11, 10)] \<and>
   step_timer (set_path [(10, 10), (11, 10)] hero0) \<noteq> 10 / 100 \<and>
   step_timer (set_path [(10, 10), (11, 10)] hero0) \<noteq> float_0_10"
  by (simp add: set_path_def hero0_def float_0_10_val)

text \<open>
  Claim C6, amended. After \<^verbatim>\<open>set_path\<close> with a path that is non-empty once its leading
  cell equal to the agent's cell is dropped, the agent is Moving with the trimmed path,
  and its timer and position are left as they were.
\<close>

theorem set_path_installs_trimmed_path:
  assumes "(if p \<noteq> [] \<and> hd p = (gx s, gy s) then tl p else p) \<noteq> []"
  shows "path (set_path p s) = Some (if p \<noteq> [] \<and> hd p = (gx s, gy s) then tl p else p) \<and>
         \<not> idle (set_path p s) \<and>
         step_timer (set_path p s) = step_timer s \<and>
         (gx (set_path p s), gy (set_path p s)) = (gx s, gy s)"
  using assms by (simp add: set_path_def idle_def Let_def)

theorem set_path_installs_trimmed_path_witness:
  "path (set_path [(10, 10), (11, 10)] hero0) = Some [(11, 10)] \<and>
   step_timer (set_path [(10, 10), (11, 10)] hero0) = 0"
  using set_path_installs_trimmed_path [of "[(10, 10), (11, 10)]" hero0]
  by (simp add: hero0_def)

text \<open>
  Claim C7 as stated: after any sequence of \<^verbatim>\<open>set_path\<close> and \<^verbatim>\<open>update\<close> calls the path is
  absent or non-empty. It fails: \<^verbatim>\<open>set_path\<close> with the agent's own cell stores an empty
  list, and the v2/v10 \<^verbatim>\<open>update\<close> leaves an empty list when it consumes the last cell.
\<close>

theorem path_inv_counterexample:
  "path_inv hero0 \<and>
   \<not> path_inv (set_path [(10, 10)] hero0) \<and>
   \<not> path_inv (update 1 (set_path [(10, 10), (11, 10)] hero0))"
proof -
  have "\<not> 0 < fsub 0 1"
    using fsub_nonpos [of 0 1] by simp
  then show ?thesis
    by (simp add: path_inv_def set_path_def update_def hero0_def)
qed

text \<open>
  Claim C7, amended. An empty path counts as no path: \<^verbatim>\<open>update\<close> leaves an agent whose
  path is absent or empty unchanged. \<^verbatim>\<open>set_path\<close> stores the trimmed list, which is
  non-empty exactly when the trimmed argument is, and empty otherwise; the v2/v10
  \<^verbatim>\<open>update\<close> leaves an empty list when it consumes the last cell; the base \<^verbatim>\<open>update\<close>
  clears an exhausted path to absent and so keeps the path absent or non-empty.
\<close>

theorem empty_path_is_idle:
  "(idle s \<longrightarrow> update dt s = s \<and> update_base dt s = s) \<and>
   (path_inv s \<longrightarrow> path_inv (update_base dt s)) \<and>
   ((if p \<noteq> [] \<and> hd p = (gx s, gy s) then tl p else p) \<noteq> [] \<longrightarrow> path_inv (set_path p s)) \<and>
   ((if p \<noteq> [] \<and> hd p = (gx s, gy s) then tl p else p) = [] \<longrightarrow> path (set_path p s) = Some []) \<and>
   (path s = Some [c] \<and> step_timer s - dt \<le> 0 \<longrightarrow> path (update dt s) = Some [])"
proof -
  have a: "idle s \<longrightarrow> update dt s = s \<and> update_base dt s = s"
    by (auto simp: idle_def update_def update_base_def)
  have b: "path_inv s \<longrightarrow> path_inv (update_base dt s)"
    by (auto simp: update_base_def path_inv_def Let_def split: option.splits list.splits)
  have c: "(if p \<noteq> [] \<and> hd p = (gx s, gy s) then tl p else p) \<noteq> [] \<longrightarrow> path_inv (set_path p s)"
    by (simp add: path_inv_def set_path_def Let_def)
  have d: "(if p \<noteq> [] \<and> hd p = (gx s, gy s) then tl p else p) = []
             \<longrightarrow> path (set_path p s) = Some []"
    by (simp add: set_path_def Let_def)
  have e: "path s = Some [c] \<and> step_timer s - dt \<le> 0 \<longrightarrow> path (update dt s) = Some []"
    using double_round_nonpos [of "step_timer s - dt"]
    by (auto simp: update_def fsub_def Let_def)
  show ?thesis
    using a b c d e by blast
qed

theorem empty_path_is_idle_witness:
  "idle (set_path [(10, 10)] hero0) \<and>
   update 1 (set_path [(10, 10)] hero0) = set_path [(10, 10)] hero0 \<and>
   path_inv hero_two_cells \<and>
   path_inv (update_base 1 hero_two_cells) \<and>
   path_inv (set_path [(10, 10), (11, 10)] hero_two_cells) \<and>
   path (set_path [(10, 10)] (set_path [(10, 10)] hero0)) = Some [] \<and>
   path (update 1 (set_path [(10, 10), (11, 10)] hero0)) = Some []"
  using empty_path_is_idle [of "set_path [(10, 10)] hero0" 1 "[(10, 10)]" "(0, 0)"]
        empty_path_is_idle [of hero_two_cells 1 "[(10, 10), (11, 10)]" "(0, 0)"]
        empty_path_is_idle [of "set_path [(10, 10), (11, 10)] hero0" 1 "[]" "(11, 10)"]
  by (simp add: idle_def set_path_def hero0_def hero_two_cells_def path_inv_def)

section \<open>Pathfinder: neighbours and the heuristic\<close>

lemma unit_step_cases:
  "unit_step (x, y) (u, v) \<longleftrightarrow>
     (u = x + 1 \<and> v = y) \<or> (u = x - 1 \<and> v = y) \<or> (u = x \<and> v = y + 1) \<or> (u = x \<and> v = y - 1)"
  unfolding unit_step_def fst_conv snd_conv by presburger

lemma neighbors_set:
  "set (neighbors B (x, y)) =
     {c \<in> {(x + 1, y), (x - 1, y), (x, y + 1), (x, y - 1)}. in_bounds c \<and> c \<notin> B}"
  unfolding neighbors_def in_bounds_def
  by (simp only: prod.case list.map set_filter list.set) auto

lemma neighbors_iff:
  "b \<in> set (neighbors B a) \<longleftrightarrow> unit_step a b \<and> in_bounds b \<and> b \<notin> B"
proof (cases a, cases b)
  fix x y u v
  assume ab: "a = (x, y)" "b = (u, v)"
  have "(u, v) \<in> set (neighbors B (x, y)) \<longleftrightarrow>
          unit_step (x, y) (u, v) \<and> in_bounds (u, v) \<and> (u, v) \<notin> B"
    unfolding neighbors_set unit_step_cases by blast
  then show ?thesis
    using ab by simp
qed

lemma finite_in_bounds: "finite {c. in_bounds c}"
proof -
  have "{c. in_bounds c} \<subseteq> {0..<GRID_W} \<times> {0..<GRID_H}"
    by (auto simp: in_bounds_def)
  then show ?thesis
    by (rule finite_subset) simp
qed

lemma finite_universe: "finite (universe start)"
  by (simp add: universe_def finite_in_bounds)

lemma card_in_bounds: "card {c. in_bounds c} = 1600"
proof -
  have "{c. in_bounds c} = {0..<GRID_W} \<times> {0..<GRID_H}"
    by (auto simp: in_bounds_def)
  then show ?thesis
    by (simp add: GRID_W_def GRID_H_def)
qed

lemma card_universe: "card (universe start) \<le> 1601"
  using card_insert_le_m1 [of 1601 "{c. in_bounds c}" start] card_in_bounds
  by (simp add: universe_def)

lemma h_step: "unit_step a b \<Longrightarrow> h a goal \<le> h b goal + 1"
  by (auto simp: unit_step_def h_def)

lemma h_self: "h a a = 0"
  by (simp add: h_def)

section \<open>Pathfinder: one relaxation keeps the invariant\<close>

lemma unit_step_irrefl: "\<not> unit_step a a"
  by (simp add: unit_step_def)

lemma inv_finite_dom: "astar_inv start goal blocked s \<Longrightarrow> finite (dom (g s))"
  unfolding astar_inv_def using finite_universe finite_subset by blast

lemma inv_g_bounds:
  "astar_inv start goal blocked s \<Longrightarrow> g s n = Some v \<Longrightarrow> 0 \<le> v \<and> v < int (card (dom (g s)))"
  unfolding astar_inv_def by blast

lemma inv_card_le: "astar_inv start goal blocked s \<Longrightarrow> card (dom (g s)) \<le> 1601"
proof -
  assume a: "astar_inv start goal blocked s"
  then have "dom (g s) \<subseteq> universe start"
    unfolding astar_inv_def by blast
  then have "card (dom (g s)) \<le> card (universe start)"
    using finite_universe card_mono by blast
  then show ?thesis
    using card_universe [of start] by linarith
qed

lemma inv_g_small: "astar_inv start goal blocked s \<Longrightarrow> g s n = Some v \<Longrightarrow> 0 \<le> v \<and> v < 1601"
  using inv_g_bounds [of start goal blocked s n v] inv_card_le [of start goal blocked s]
  by linarith

lemma relax_inv:
  assumes inv: "astar_inv start goal blocked s"
      and gc: "g s current = Some gc"
      and nb: "nb \<in> set (neighbors blocked current)"
      and lt: "gc + 1 < dict_get (g s) nb (10 ^ 9)"
  shows "astar_inv start goal blocked (relax goal current gc nb s)"
proof -
  have fin: "finite (dom (g s))"
    using inv by (rule inv_finite_dom)
  have gc0: "0 \<le> gc" and gccard: "gc < int (card (dom (g s)))"
    using inv_g_bounds [OF inv gc] by simp_all
  have nbcur: "nb \<noteq> current"
    using nb unit_step_irrefl [of current] by (auto simp only: neighbors_iff)
  have nbin: "in_bounds nb"
    using nb by (simp add: neighbors_iff)
  have gstart: "g s start = Some 0" and cstart: "came s start = None"
    using inv unfolding astar_inv_def by blast+
  have nbstart: "nb \<noteq> start"
  proof
    assume "nb = start"
    then have "dict_get (g s) nb (10 ^ 9) = 0"
      using gstart by (simp add: dict_get_def)
    then show False using lt gc0 by linarith
  qed
  have old: "\<And>v. g s nb = Some v \<Longrightarrow> gc + 1 < v"
    using lt by (simp add: dict_get_def)
  have newcard: "gc + 1 < int (card (insert nb (dom (g s))))"
  proof (cases "nb \<in> dom (g s)")
    case True
    then obtain v where v: "g s nb = Some v" by blast
    have "insert nb (dom (g s)) = dom (g s)" using True by blast
    then show ?thesis
      using old [OF v] inv_g_bounds [OF inv v] by simp
  next
    case False
    then have "card (insert nb (dom (g s))) = Suc (card (dom (g s)))"
      using fin by simp
    then show ?thesis using gccard by simp
  qed
  have cardmono: "card (dom (g s)) \<le> card (insert nb (dom (g s)))"
    using fin by (simp add: card_insert_le)
  have c1: "open_set (relax goal current gc nb s) \<subseteq> dom (g (relax goal current gc nb s))"
    using inv unfolding astar_inv_def relax_def by auto
  have c2: "dom (g (relax goal current gc nb s)) \<subseteq> universe start"
    using inv nbin unfolding astar_inv_def relax_def universe_def by auto
  have c3: "g (relax goal current gc nb s) start = Some 0"
           "came (relax goal current gc nb s) start = None"
    using gstart cstart nbstart unfolding relax_def by simp_all
  have c4: "\<forall>n v. g (relax goal current gc nb s) n = Some v \<longrightarrow>
         0 \<le> v \<and> v < int (card (dom (g (relax goal current gc nb s)))) \<and>
         f (relax goal current gc nb s) n = Some (v + h n goal) \<and>
         (n = start \<or> came (relax goal current gc nb s) n \<noteq> None)"
  proof (intro allI impI)
    fix n v
    assume a: "g (relax goal current gc nb s) n = Some v"
    show "0 \<le> v \<and> v < int (card (dom (g (relax goal current gc nb s)))) \<and>
         f (relax goal current gc nb s) n = Some (v + h n goal) \<and>
         (n = start \<or> came (relax goal current gc nb s) n \<noteq> None)"
    proof (cases "n = nb")
      case True
      then have "v = gc + 1" using a by (simp add: relax_def)
      then show ?thesis
        using True gc0 newcard by (simp add: relax_def)
    next
      case False
      then have gn: "g s n = Some v" using a by (simp add: relax_def)
      have "0 \<le> v \<and> v < int (card (dom (g s))) \<and> f s n = Some (v + h n goal) \<and>
            (n = start \<or> came s n \<noteq> None)"
        using inv gn unfolding astar_inv_def by blast
      then show ?thesis
        using False cardmono by (simp add: relax_def)
    qed
  qed
  have c5: "\<forall>n p. came (relax goal current gc nb s) n = Some p \<longrightarrow>
         n \<in> set (neighbors blocked p) \<and>
         (\<exists>vn vp. g (relax goal current gc nb s) n = Some vn \<and>
                  g (relax goal current gc nb s) p = Some vp \<and> vp + 1 \<le> vn)"
  proof (intro allI impI)
    fix n p
    assume a: "came (relax goal current gc nb s) n = Some p"
    show "n \<in> set (neighbors blocked p) \<and>
         (\<exists>vn vp. g (relax goal current gc nb s) n = Some vn \<and>
                  g (relax goal current gc nb s) p = Some vp \<and> vp + 1 \<le> vn)"
    proof (cases "n = nb")
      case True
      then have "p = current" using a by (simp add: relax_def)
      then show ?thesis
        using True nb nbcur gc by (simp add: relax_def)
    next
      case False
      then have cn: "came s n = Some p" using a by (simp add: relax_def)
      then obtain vn vp where nbr: "n \<in> set (neighbors blocked p)"
          and vn: "g s n = Some vn" and vp: "g s p = Some vp" and le: "vp + 1 \<le> vn"
        using inv unfolding astar_inv_def by blast
      show ?thesis
      proof (cases "p = nb")
        case True
        have "gc + 1 < vp" using old vp True by simp
        then show ?thesis
          using False True nbr vn le by (simp add: relax_def)
      next
        case p: False
        show ?thesis
          using False p nbr vn vp le by (simp add: relax_def)
      qed
    qed
  qed
  show ?thesis
    unfolding astar_inv_def using c1 c2 c3 c4 c5 by blast
qed

section \<open>Pathfinder: the loop over the neighbours\<close>

lemma expand_Cons:
  "g s current = Some gc \<Longrightarrow>
   expand goal current (nb # nbs) s =
     (if gc + 1 < dict_get (g s) nb (10 ^ 9)
      then expand goal current nbs (relax goal current gc nb s)
      else expand goal current nbs s)"
  by (simp add: relax_def Let_def)

lemma relax_gsum:
  assumes inv: "astar_inv start goal blocked s"
      and gc: "g s current = Some gc"
      and nb: "nb \<in> set (neighbors blocked current)"
      and lt: "gc + 1 < dict_get (g s) nb (10 ^ 9)"
  shows "gsum start (relax goal current gc nb s) < gsum start s"
proof -
  have gc0: "0 \<le> gc"
    using inv_g_bounds [OF inv gc] by simp
  have nbU: "nb \<in> universe start"
    using nb by (simp add: neighbors_iff universe_def)
  have le: "\<forall>c\<in>universe start. gval (relax goal current gc nb s) c \<le> gval s c"
  proof
    fix c
    show "gval (relax goal current gc nb s) c \<le> gval s c"
      using lt gc0 by (cases "c = nb") (simp_all add: gval_def relax_def dict_get_def)
  qed
  have "gval (relax goal current gc nb s) nb < gval s nb"
    using lt gc0 by (simp add: gval_def relax_def dict_get_def)
  then have "\<exists>c\<in>universe start. gval (relax goal current gc nb s) c < gval s c"
    using nbU by blast
  then show ?thesis
    unfolding gsum_def using le finite_universe sum_strict_mono_ex1 by blast
qed

lemma relax_post:
  assumes inv: "astar_inv start goal blocked s"
      and gc: "g s current = Some gc"
      and nb: "nb \<in> set (neighbors blocked current)"
      and lt: "gc + 1 < dict_get (g s) nb (10 ^ 9)"
  shows "expand_post start current gc [nb] s (relax goal current gc nb s)"
proof -
  have nbcur: "nb \<noteq> current"
    using nb unit_step_irrefl [of current] by (auto simp only: neighbors_iff)
  have old: "\<And>v. g s nb = Some v \<Longrightarrow> gc + 1 \<le> v"
    using lt by (simp add: dict_get_def)
  have m: "\<forall>n v. g s n = Some v \<longrightarrow> (\<exists>v'. g (relax goal current gc nb s) n = Some v' \<and> v' \<le> v)"
    using old by (simp add: relax_def)
  have ch: "\<forall>n. g (relax goal current gc nb s) n \<noteq> g s n \<longrightarrow> n \<in> open_set (relax goal current gc nb s)"
    by (simp add: relax_def)
  have gcur: "g (relax goal current gc nb s) current = Some gc"
    using nbcur gc by (simp add: relax_def)
  have o: "open_set s \<subseteq> open_set (relax goal current gc nb s)"
    by (auto simp: relax_def)
  have n1: "\<forall>x\<in>set [nb]. \<exists>vb. g (relax goal current gc nb s) x = Some vb \<and> vb \<le> gc + 1"
    by (simp add: relax_def)
  show ?thesis
    unfolding expand_post_def
    using gcur o m ch n1 relax_gsum [OF inv gc nb lt] by blast
qed

lemma expand_post_refl:
  "g s current = Some gc \<Longrightarrow> expand_post start current gc [] s s"
  by (simp add: expand_post_def)

lemma expand_post_trans:
  assumes a: "expand_post start current gc xs s s1"
      and b: "expand_post start current gc ys s1 s2"
  shows "expand_post start current gc (xs @ ys) s s2"
proof -
  have o: "open_set s \<subseteq> open_set s2"
    using a b unfolding expand_post_def by blast
  have m: "\<forall>n v. g s n = Some v \<longrightarrow> (\<exists>v'. g s2 n = Some v' \<and> v' \<le> v)"
  proof (intro allI impI)
    fix n v assume "g s n = Some v"
    then obtain v1 where "g s1 n = Some v1" "v1 \<le> v"
      using a unfolding expand_post_def by blast
    moreover then obtain v2 where "g s2 n = Some v2" "v2 \<le> v1"
      using b unfolding expand_post_def by blast
    ultimately show "\<exists>v'. g s2 n = Some v' \<and> v' \<le> v" by auto
  qed
  have ch: "\<forall>n. g s2 n \<noteq> g s n \<longrightarrow> n \<in> open_set s2"
  proof (intro allI impI)
    fix n assume d: "g s2 n \<noteq> g s n"
    show "n \<in> open_set s2"
    proof (cases "g s2 n = g s1 n")
      case True
      then have "g s1 n \<noteq> g s n" using d by simp
      then have "n \<in> open_set s1" using a unfolding expand_post_def by blast
      then show ?thesis using b unfolding expand_post_def by blast
    next
      case False
      then show ?thesis using b unfolding expand_post_def by blast
    qed
  qed
  have nbs: "\<forall>nb\<in>set (xs @ ys). \<exists>vb. g s2 nb = Some vb \<and> vb \<le> gc + 1"
  proof
    fix nb assume "nb \<in> set (xs @ ys)"
    then consider "nb \<in> set xs" | "nb \<in> set ys" by auto
    then show "\<exists>vb. g s2 nb = Some vb \<and> vb \<le> gc + 1"
    proof cases
      case 1
      then obtain v1 where v1: "g s1 nb = Some v1" "v1 \<le> gc + 1"
        using a unfolding expand_post_def by blast
      then obtain v2 where "g s2 nb = Some v2" "v2 \<le> v1"
        using b unfolding expand_post_def by blast
      then show ?thesis using v1 by auto
    next
      case 2
      then show ?thesis using b unfolding expand_post_def by blast
    qed
  qed
  have ms: "s2 = s \<or> gsum start s2 < gsum start s"
    using a b unfolding expand_post_def by auto
  have gcur: "g s2 current = Some gc"
    using b unfolding expand_post_def by blast
  show ?thesis
    unfolding expand_post_def using gcur o m ch nbs ms by blast
qed

lemma skip_post:
  assumes inv: "astar_inv start goal blocked s"
      and gc: "g s current = Some gc"
      and nlt: "\<not> gc + 1 < dict_get (g s) nb (10 ^ 9)"
  shows "expand_post start current gc [nb] s s"
proof -
  have "gc < 1601"
    using inv_g_small [OF inv gc] by simp
  then have "\<exists>vb. g s nb = Some vb \<and> vb \<le> gc + 1"
    using nlt by (cases "g s nb") (simp_all add: dict_get_def)
  then show ?thesis
    using gc by (simp add: expand_post_def)
qed

lemma expand_spec:
  assumes "astar_inv start goal blocked s"
      and "g s current = Some gc"
      and "set nbs \<subseteq> set (neighbors blocked current)"
  shows "\<exists>s'. expand goal current nbs s = Inr s' \<and> astar_inv start goal blocked s' \<and>
              expand_post start current gc nbs s s'"
  using assms
proof (induction nbs arbitrary: s)
  case Nil
  then show ?case
    using expand_post_refl by simp
next
  case (Cons nb nbs)
  have nb: "nb \<in> set (neighbors blocked current)"
    using Cons.prems(3) by simp
  have sub: "set nbs \<subseteq> set (neighbors blocked current)"
    using Cons.prems(3) by simp
  show ?case
  proof (cases "gc + 1 < dict_get (g s) nb (10 ^ 9)")
    case True
    let ?s1 = "relax goal current gc nb s"
    have i1: "astar_inv start goal blocked ?s1"
      using relax_inv [OF Cons.prems(1) Cons.prems(2) nb True] .
    have p1: "expand_post start current gc [nb] s ?s1"
      using relax_post [OF Cons.prems(1) Cons.prems(2) nb True] .
    have g1: "g ?s1 current = Some gc"
      using p1 unfolding expand_post_def by blast
    obtain s' where s': "expand goal current nbs ?s1 = Inr s'"
        "astar_inv start goal blocked s'" "expand_post start current gc nbs ?s1 s'"
      using Cons.IH [OF i1 g1 sub] by blast
    have "expand goal current (nb # nbs) s = Inr s'"
      using expand_Cons [OF Cons.prems(2)] True s'(1) by simp
    moreover have "expand_post start current gc (nb # nbs) s s'"
      using expand_post_trans [OF p1 s'(3)] by simp
    ultimately show ?thesis using s'(2) by blast
  next
    case False
    have p1: "expand_post start current gc [nb] s s"
      using skip_post [OF Cons.prems(1) Cons.prems(2) False] .
    obtain s' where s': "expand goal current nbs s = Inr s'"
        "astar_inv start goal blocked s'" "expand_post start current gc nbs s s'"
      using Cons.IH [OF Cons.prems(1) Cons.prems(2) sub] by blast
    have "expand goal current (nb # nbs) s = Inr s'"
      using expand_Cons [OF Cons.prems(2)] False s'(1) by simp
    moreover have "expand_post start current gc (nb # nbs) s s'"
      using expand_post_trans [OF p1 s'(3)] by simp
    ultimately show ?thesis using s'(2) by blast
  qed
qed

section \<open>Pathfinder: path reconstruction and the frontier\<close>

lemma walk_snoc:
  "walk B (xs @ [a]) \<Longrightarrow> unit_step a b \<Longrightarrow> in_bounds b \<Longrightarrow> b \<notin> B \<Longrightarrow> walk B (xs @ [a, b])"
proof (induction xs)
  case Nil
  then show ?case by simp
next
  case (Cons c xs)
  then show ?case by (cases xs) auto
qed

lemma h_walk: "walk B (a # q) \<Longrightarrow> h a (last (a # q)) \<le> int (length q)"
proof (induction q arbitrary: a)
  case Nil
  then show ?case by (simp add: h_self)
next
  case (Cons b q)
  have st: "unit_step a b" and w: "walk B (b # q)"
    using Cons.prems by simp_all
  have "h a (last (b # q)) \<le> h b (last (b # q)) + 1"
    using h_step [OF st] .
  then show ?case
    using Cons.IH [OF w] by simp
qed

lemma walk_back_None: "cm n = None \<Longrightarrow> walk_back cm n acc = Some acc"
  by (subst walk_back.simps) simp

lemma walk_back_Some: "cm n = Some p \<Longrightarrow> walk_back cm n acc = walk_back cm p (acc @ [p])"
  by (subst walk_back.simps) simp

lemma walk_back_spec:
  assumes inv: "astar_inv start goal blocked s"
  shows "g s n = Some v \<Longrightarrow>
         \<exists>cs. walk_back (came s) n acc = Some (acc @ cs) \<and>
              walk blocked (rev (n # cs)) \<and> hd (rev (n # cs)) = start \<and>
              int (length cs) \<le> v"
proof (induction "nat v" arbitrary: n v acc rule: less_induct)
  case less
  have v0: "0 \<le> v"
    using inv_g_bounds [OF inv less.prems] by simp
  show ?case
  proof (cases "came s n")
    case None
    have "n = start"
      using inv less.prems None unfolding astar_inv_def by blast
    then show ?thesis
      using walk_back_None [of "came s" n acc] None v0 by simp
  next
    case (Some p)
    obtain vn vp where nbr: "n \<in> set (neighbors blocked p)"
        and vn: "g s n = Some vn" and vp: "g s p = Some vp" and le: "vp + 1 \<le> vn"
      using inv Some unfolding astar_inv_def by blast
    have vnv: "vn = v" using vn less.prems by simp
    have vp0: "0 \<le> vp"
      using inv_g_bounds [OF inv vp] by simp
    have lt: "nat vp < nat v"
      using le vnv vp0 by linarith
    obtain cs where cs: "walk_back (came s) p ((acc @ [p]) @ []) = Some (((acc @ [p]) @ []) @ cs)"
        "walk blocked (rev (p # cs))" "hd (rev (p # cs)) = start" "int (length cs) \<le> vp"
      using less.hyps [OF lt vp, of "(acc @ [p]) @ []"] by blast
    have st: "unit_step p n" "in_bounds n" "n \<notin> blocked"
      using nbr by (simp_all add: neighbors_iff)
    have w: "walk blocked (rev (n # p # cs))"
      using walk_snoc [of blocked "rev cs" p n] cs(2) st by simp
    have hd: "hd (rev (n # p # cs)) = start"
      using cs(3) by (auto simp: hd_append split: if_splits)
    have len: "int (length (p # cs)) \<le> v"
      using cs(4) le vnv by simp
    have "walk_back (came s) n acc = Some (acc @ (p # cs))"
      using walk_back_Some [of "came s" n p acc] Some cs(1) by simp
    then show ?thesis
      using w hd len by blast
  qed
qed

lemma frontier:
  assumes inv: "loop_inv start goal blocked s"
  shows "walk blocked (a # q) \<Longrightarrow> last (a # q) = goal \<Longrightarrow> g s a = Some va \<Longrightarrow> va \<le> k \<Longrightarrow>
         \<exists>n\<in>open_set s. \<exists>vn. g s n = Some vn \<and> vn + h n goal \<le> k + int (length q)"
proof (induction q arbitrary: a va k)
  case Nil
  then have "a = goal" by simp
  then have "goal \<in> open_set s"
    using inv Nil.prems(3) unfolding loop_inv_def by blast
  then show ?case
    using Nil.prems \<open>a = goal\<close> by (intro bexI [of _ goal] exI [of _ va]) (auto simp: h_self)
next
  case (Cons b q)
  show ?case
  proof (cases "a \<in> open_set s")
    case True
    have "h a goal \<le> int (length (b # q))"
      using h_walk [OF Cons.prems(1)] Cons.prems(2) by simp
    then show ?thesis
      using True Cons.prems(3,4) by (intro bexI [of _ a] exI [of _ va]) auto
  next
    case False
    then have "closed_ok blocked s a"
      using inv Cons.prems(3) unfolding loop_inv_def by blast
    moreover have "b \<in> set (neighbors blocked a)"
      using Cons.prems(1) by (simp add: neighbors_iff)
    ultimately obtain vb where vb: "g s b = Some vb" "vb \<le> va + 1"
      using Cons.prems(3) unfolding closed_ok_def by fastforce
    have w: "walk blocked (b # q)" and l: "last (b # q) = goal"
      using Cons.prems(1,2) by simp_all
    have "vb \<le> k + 1" using vb(2) Cons.prems(4) by simp
    from Cons.IH [OF w l vb(1) this]
    show ?thesis by (simp add: add.assoc)
  qed
qed

section \<open>Pathfinder: the search loop terminates with a shortest route\<close>

lemma wf_loop_rel: "wf (loop_rel start)"
  unfolding loop_rel_def by (intro wf_inv_image wf_lex_prod wf_less_than)

lemma loop_unfold_empty:
  "open_set s = {} \<Longrightarrow> astar_loop sel goal blocked s = Some (Inr [])"
  by (subst astar_loop.simps) simp

lemma loop_unfold_goal:
  "open_set s \<noteq> {} \<Longrightarrow> sel (\<lambda>n. dict_get (f s) n (10 ^ 9)) (open_set s) = goal \<Longrightarrow>
   astar_loop sel goal blocked s =
     map_option (\<lambda>pth. Inr (rev pth)) (walk_back (came s) goal [goal])"
  by (subst astar_loop.simps) (simp add: Let_def)

lemma loop_unfold_step:
  "open_set s \<noteq> {} \<Longrightarrow> sel (\<lambda>n. dict_get (f s) n (10 ^ 9)) (open_set s) = current \<Longrightarrow>
   current \<noteq> goal \<Longrightarrow> current \<in> open_set s \<Longrightarrow>
   expand goal current (neighbors blocked current) (s\<lparr>open_set := open_set s - {current}\<rparr>) = Inr s' \<Longrightarrow>
   astar_loop sel goal blocked s = astar_loop sel goal blocked s'"
  by (subst astar_loop.simps) (simp add: Let_def)

lemma loop_step:
  assumes inv: "loop_inv start goal blocked s"
      and cur: "current \<in> open_set s"
      and ng: "current \<noteq> goal"
  shows "\<exists>s'. expand goal current (neighbors blocked current)
                 (s\<lparr>open_set := open_set s - {current}\<rparr>) = Inr s' \<and>
              loop_inv start goal blocked s' \<and> (s', s) \<in> loop_rel start"
proof -
  let ?s0 = "s\<lparr>open_set := open_set s - {current}\<rparr>"
  have ainv: "astar_inv start goal blocked s"
    using inv unfolding loop_inv_def by blast
  have ainv0: "astar_inv start goal blocked ?s0"
    using ainv unfolding astar_inv_def by auto
  obtain gc where gc: "g s current = Some gc"
    using ainv cur unfolding astar_inv_def by blast
  have gc0: "g ?s0 current = Some gc"
    using gc by simp
  obtain s' where ex: "expand goal current (neighbors blocked current) ?s0 = Inr s'"
      and ainv': "astar_inv start goal blocked s'"
      and post: "expand_post start current gc (neighbors blocked current) ?s0 s'"
    using expand_spec [OF ainv0 gc0, of "neighbors blocked current"] by blast
  have e0: "g ?s0 = g s" "open_set ?s0 = open_set s - {current}"
    by simp_all
  note p = post [unfolded expand_post_def e0]
  have pg: "g s' current = Some gc"
    using p by blast
  have po: "open_set s - {current} \<subseteq> open_set s'"
    using p by blast
  have pm: "\<And>n v. g s n = Some v \<Longrightarrow> \<exists>v'. g s' n = Some v' \<and> v' \<le> v"
    using p by blast
  have pc: "\<And>n. g s' n \<noteq> g s n \<Longrightarrow> n \<in> open_set s'"
    using p by blast
  have pn: "\<And>nb. nb \<in> set (neighbors blocked current) \<Longrightarrow> \<exists>vb. g s' nb = Some vb \<and> vb \<le> gc + 1"
    using p by blast
  have pd: "s' = ?s0 \<or> gsum start s' < gsum start ?s0"
    using p by blast
  have closed: "\<forall>n\<in>dom (g s') - open_set s'. closed_ok blocked s' n"
  proof
    fix n assume n: "n \<in> dom (g s') - open_set s'"
    then have same: "g s' n = g s n" using pc by blast
    show "closed_ok blocked s' n"
    proof (cases "n = current")
      case True
      then show ?thesis
        unfolding closed_ok_def using pg pn by simp
    next
      case False
      have "n \<notin> open_set s" using n po False by blast
      moreover have "n \<in> dom (g s)"
      proof -
        obtain y where "g s' n = Some y" using n by blast
        then have "g s n = Some y" using same by simp
        then show ?thesis by blast
      qed
      ultimately have ok: "closed_ok blocked s n"
        using inv unfolding loop_inv_def by blast
      show ?thesis
        unfolding closed_ok_def
      proof
        fix nb assume "nb \<in> set (neighbors blocked n)"
        then obtain vn vb where "g s n = Some vn" "g s nb = Some vb" "vb \<le> vn + 1"
          using ok unfolding closed_ok_def by blast
        moreover then obtain vb' where "g s' nb = Some vb'" "vb' \<le> vb"
          using pm by blast
        ultimately show "\<exists>vn vb. g s' n = Some vn \<and> g s' nb = Some vb \<and> vb \<le> vn + 1"
          using same by auto
      qed
    qed
  qed
  have gopen: "goal \<in> dom (g s') \<longrightarrow> goal \<in> open_set s'"
  proof
    assume a: "goal \<in> dom (g s')"
    show "goal \<in> open_set s'"
    proof (cases "g s' goal = g s goal")
      case True
      obtain y where "g s' goal = Some y" using a by blast
      then have "g s goal = Some y" using True by simp
      then have "goal \<in> dom (g s)" by blast
      then have "goal \<in> open_set s" using inv unfolding loop_inv_def by blast
      then show ?thesis using po ng by blast
    next
      case False
      then show ?thesis using pc by blast
    qed
  qed
  have fin: "finite (open_set s)"
    using ainv inv_finite_dom [OF ainv] finite_subset unfolding astar_inv_def by blast
  have gs0: "gsum start ?s0 = gsum start s"
    by (simp add: gsum_def gval_def)
  have dec: "(s', s) \<in> loop_rel start"
  proof (cases "s' = ?s0")
    case True
    have "card (open_set s - {current}) < card (open_set s)"
      using fin cur by (rule card_Diff1_less)
    then show ?thesis
      using True gs0 unfolding loop_rel_def by simp
  next
    case False
    then have "gsum start s' < gsum start s" using pd gs0 by simp
    then show ?thesis
      unfolding loop_rel_def by simp
  qed
  show ?thesis
    unfolding loop_inv_def using ex ainv' closed gopen dec by blast
qed

lemma goal_pick:
  assumes inv: "loop_inv start goal blocked s"
      and gopen: "goal \<in> open_set s"
      and mn: "\<forall>n\<in>open_set s. dict_get (f s) goal (10 ^ 9) \<le> dict_get (f s) n (10 ^ 9)"
  shows "\<exists>r. map_option (\<lambda>pth. Inr (rev pth)) (walk_back (came s) goal [goal])
                = Some (Inr r :: py_error + cell list) \<and>
             route blocked start goal r \<and>
             (\<forall>q. route blocked start goal q \<longrightarrow> length r \<le> length q)"
proof -
  have ainv: "astar_inv start goal blocked s"
    using inv unfolding loop_inv_def by blast
  obtain vg where vg: "g s goal = Some vg"
    using ainv gopen unfolding astar_inv_def by blast
  have fg: "f s goal = Some (vg + h goal goal)"
    using ainv vg unfolding astar_inv_def by blast
  have keyg: "dict_get (f s) goal (10 ^ 9) = vg"
    using fg by (simp add: dict_get_def h_self)
  obtain cs where cs: "walk_back (came s) goal [goal] = Some ([goal] @ cs)"
      "walk blocked (rev (goal # cs))" "hd (rev (goal # cs)) = start" "int (length cs) \<le> vg"
    using walk_back_spec [OF ainv vg, of "[goal]"] by blast
  let ?r = "rev (goal # cs)"
  have r1: "map_option (\<lambda>pth. Inr (rev pth)) (walk_back (came s) goal [goal])
              = Some (Inr ?r :: py_error + cell list)"
    using cs(1) by simp
  have r2: "route blocked start goal ?r"
    unfolding route_def using cs(2,3) by simp
  have r3: "\<forall>q. route blocked start goal q \<longrightarrow> length ?r \<le> length q"
  proof (intro allI impI)
    fix q assume q: "route blocked start goal q"
    then obtain q' where qq: "q = start # q'"
      unfolding route_def by (cases q) auto
    have w: "walk blocked (start # q')" and l: "last (start # q') = goal"
      using q qq unfolding route_def by simp_all
    have gs: "g s start = Some 0"
      using ainv unfolding astar_inv_def by blast
    obtain n vn where n: "n \<in> open_set s" "g s n = Some vn" "vn + h n goal \<le> 0 + int (length q')"
      using frontier [OF inv w l gs, of 0] by blast
    have "f s n = Some (vn + h n goal)"
      using ainv n(2) unfolding astar_inv_def by blast
    then have "dict_get (f s) n (10 ^ 9) = vn + h n goal"
      by (simp add: dict_get_def)
    then have "vg \<le> int (length q')"
      using mn n(1,3) keyg by fastforce
    then show "length ?r \<le> length q"
      using cs(4) qq by simp
  qed
  show ?thesis using r1 r2 r3 by blast
qed

lemma sel_props:
  "is_min_selector sel \<Longrightarrow> finite S \<Longrightarrow> S \<noteq> {} \<Longrightarrow>
   sel key S \<in> S \<and> (\<forall>n\<in>S. key (sel key S) \<le> key n)"
  by (simp add: is_min_selector_def)

lemma astar_loop_correct:
  assumes sel: "is_min_selector sel"
  shows "loop_inv start goal blocked s \<Longrightarrow>
         \<exists>r. astar_loop sel goal blocked s = Some (Inr r) \<and>
             ((r = [] \<and> \<not> reachable blocked start goal) \<or>
              (route blocked start goal r \<and>
               (\<forall>q. route blocked start goal q \<longrightarrow> length r \<le> length q)))"
proof (induction s rule: wf_induct_rule [OF wf_loop_rel [of start]])
  case (1 s)
  have inv: "loop_inv start goal blocked s" using 1 by blast
  have ainv: "astar_inv start goal blocked s"
    using inv unfolding loop_inv_def by blast
  show ?case
  proof (cases "open_set s = {}")
    case True
    have "\<not> reachable blocked start goal"
    proof
      assume "reachable blocked start goal"
      then obtain q where q: "route blocked start goal q"
        unfolding reachable_def by blast
      then obtain q' where qq: "q = start # q'"
        unfolding route_def by (cases q) auto
      have w: "walk blocked (start # q')" and l: "last (start # q') = goal"
        using q qq unfolding route_def by simp_all
      have gs: "g s start = Some 0"
        using ainv unfolding astar_inv_def by blast
      show False
        using frontier [OF inv w l gs, of 0] True by blast
    qed
    then show ?thesis
      using loop_unfold_empty [OF True] by simp
  next
    case False
    let ?key = "\<lambda>n. dict_get (f s) n (10 ^ 9)"
    let ?cur = "sel ?key (open_set s)"
    have fin: "finite (open_set s)"
      using ainv inv_finite_dom [OF ainv] finite_subset unfolding astar_inv_def by blast
    have cur: "?cur \<in> open_set s" and mn: "\<forall>n\<in>open_set s. ?key ?cur \<le> ?key n"
      using sel_props [OF sel fin False, of ?key] by simp_all
    show ?thesis
    proof (cases "?cur = goal")
      case True
      have "goal \<in> open_set s" using cur True by simp
      moreover have "\<forall>n\<in>open_set s. ?key goal \<le> ?key n" using mn True by simp
      ultimately obtain r where r: "map_option (\<lambda>pth. Inr (rev pth)) (walk_back (came s) goal [goal])
                = Some (Inr r :: py_error + cell list)" "route blocked start goal r"
             "\<forall>q. route blocked start goal q \<longrightarrow> length r \<le> length q"
        using goal_pick [OF inv] by blast
      show ?thesis
        using loop_unfold_goal [of s sel goal blocked] False True r by simp
    next
      case ng: False
      obtain s' where s': "expand goal ?cur (neighbors blocked ?cur)
                 (s\<lparr>open_set := open_set s - {?cur}\<rparr>) = Inr s'"
          "loop_inv start goal blocked s'" "(s', s) \<in> loop_rel start"
        using loop_step [OF inv cur ng] by blast
      have "astar_loop sel goal blocked s = astar_loop sel goal blocked s'"
        using loop_unfold_step [of s sel ?cur goal blocked s'] False ng cur s'(1) by simp
      then show ?thesis
        using 1(1) [OF s'(3) s'(2)] by simp
    qed
  qed
qed

section \<open>Pathfinder: results of \<^verbatim>\<open>astar\<close>\<close>

lemma lex_min_is_min_selector: "is_min_selector lex_min"
  unfolding is_min_selector_def
proof (intro allI impI)
  fix key :: "cell \<Rightarrow> int" and S :: "cell set"
  assume fin: "finite S" and ne: "S \<noteq> {}"
  let ?T = "(\<lambda>n. (key n, n)) ` S"
  have finT: "finite ?T" and neT: "?T \<noteq> {}"
    using fin ne by simp_all
  have "Min ?T \<in> ?T"
    using Min_in [OF finT neT] .
  then obtain m where m: "m \<in> S" "Min ?T = (key m, m)"
    by blast
  have sel: "lex_min key S = m"
    using m(2) by (simp add: lex_min_def)
  have "\<forall>n\<in>S. key m \<le> key n"
  proof
    fix n assume "n \<in> S"
    then have "Min ?T \<le> (key n, n)"
      using Min_le [OF finT] by blast
    then show "key m \<le> key n"
      using m(2) by (auto simp: less_eq_prod_def)
  qed
  then show "lex_min key S \<in> S \<and> (\<forall>n\<in>S. key (lex_min key S) \<le> key n)"
    using sel m(1) by simp
qed

lemma init_loop_inv: "loop_inv start goal blocked (astar_init start goal)"
proof -
  have d: "dom (g (astar_init start goal)) = {start}"
    by (simp add: astar_init_def)
  have a: "astar_inv start goal blocked (astar_init start goal)"
    unfolding astar_inv_def d
    by (auto simp: astar_init_def universe_def split: if_splits)
  show ?thesis
    unfolding loop_inv_def d using a by (simp add: astar_init_def)
qed

lemma walk_tail: "walk B (a # q) \<Longrightarrow> c \<in> set q \<Longrightarrow> in_bounds c \<and> c \<notin> B"
  by (induction q arbitrary: a) auto

lemma walk_steps: "walk B p \<Longrightarrow> Suc i < length p \<Longrightarrow> unit_step (p ! i) (p ! Suc i)"
proof (induction B p arbitrary: i rule: walk.induct)
  case (1 B)
  then show ?case by simp
next
  case (2 B a)
  then show ?case by simp
next
  case (3 B a b rest)
  then show ?case by (cases i) auto
qed

lemma route_single: "route B c c [c]"
  by (simp add: route_def)

lemma route_length: "route B a b q \<Longrightarrow> 1 \<le> length q"
  by (cases q) (auto simp: route_def)

lemma blocked_goal_unreachable:
  assumes "start \<noteq> goal" "goal \<in> blocked"
  shows "\<not> reachable blocked start goal"
proof
  assume "reachable blocked start goal"
  then obtain q where q: "route blocked start goal q"
    unfolding reachable_def by blast
  then obtain q' where qq: "q = start # q'"
    unfolding route_def by (cases q) auto
  have w: "walk blocked (start # q')" and l: "last (start # q') = goal"
    using q qq unfolding route_def by simp_all
  have "q' \<noteq> []" using l assms(1) by auto
  then have "goal \<in> set q'" using l by (metis last.simps last_in_set)
  then show False
    using walk_tail [OF w] assms(2) by blast
qed

lemma astar_base_result:
  assumes sel: "is_min_selector sel"
  shows "\<exists>r. astar_base sel start goal blocked = Some (Inr r) \<and>
             ((r = [] \<and> \<not> reachable blocked start goal) \<or>
              (route blocked start goal r \<and>
               (\<forall>q. route blocked start goal q \<longrightarrow> length r \<le> length q)))"
  unfolding astar_base_def
  using astar_loop_correct [OF sel init_loop_inv] .

lemma astar_loop_same_cell:
  assumes sel: "is_min_selector sel"
  shows "astar_loop sel c blocked (astar_init c c) = Some (Inr [c])"
proof -
  let ?s = "astar_init c c"
  have o: "open_set ?s = {c}" by (simp add: astar_init_def)
  have ne: "open_set ?s \<noteq> {}" using o by simp
  have "sel (\<lambda>n. dict_get (f ?s) n (10 ^ 9)) (open_set ?s) \<in> open_set ?s"
    using sel_props [OF sel, of "open_set ?s"] o by simp
  then have pick: "sel (\<lambda>n. dict_get (f ?s) n (10 ^ 9)) (open_set ?s) = c"
    using o by simp
  have "walk_back (came ?s) c [c] = Some [c]"
    using walk_back_None [of "came ?s" c "[c]"] by (simp add: astar_init_def)
  then show ?thesis
    using loop_unfold_goal [of ?s sel c blocked] ne pick by simp
qed

lemma astar_base_eq:
  assumes sel: "is_min_selector sel"
  shows "astar_base sel start goal blocked = astar sel start goal blocked"
proof (cases "start = goal")
  case True
  then show ?thesis
    using astar_loop_same_cell [OF sel, of goal blocked]
    by (simp add: astar_def astar_base_def)
next
  case ne: False
  show ?thesis
  proof (cases "goal \<in> blocked")
    case True
    obtain r where r: "astar_base sel start goal blocked = Some (Inr r)"
        "(r = [] \<and> \<not> reachable blocked start goal) \<or> route blocked start goal r"
      using astar_base_result [OF sel, of start goal blocked] by blast
    have "\<not> reachable blocked start goal"
      using blocked_goal_unreachable [OF ne True] .
    then have "r = []"
      using r(2) unfolding reachable_def by blast
    then show ?thesis
      using r(1) ne True by (simp add: astar_def)
  next
    case False
    then show ?thesis
      using ne by (simp add: astar_def astar_base_def)
  qed
qed

lemma astar_result:
  assumes sel: "is_min_selector sel"
  shows "\<exists>r. astar sel start goal blocked = Some (Inr r) \<and>
             astar_base sel start goal blocked = Some (Inr r) \<and>
             ((r = [] \<and> \<not> reachable blocked start goal) \<or>
              (route blocked start goal r \<and>
               (\<forall>q. route blocked start goal q \<longrightarrow> length r \<le> length q)))"
  using astar_base_result [OF sel, of start goal blocked] astar_base_eq [OF sel, of start goal blocked]
  by simp

section \<open>Pathfinder: the claims\<close>

text \<open>
  Claim C1. When the goal is reachable from an in-bounds start through non-blocked
  in-bounds cells, \<^verbatim>\<open>astar\<close> (in every variant, and whatever order \<^verbatim>\<open>min\<close> breaks ties
  in) returns a path from the start to the goal in which consecutive cells differ by one
  axis-aligned unit step, no cell after the start is blocked, every cell is in bounds,
  and no route from the start to the goal has fewer cells: its number of steps is that
  of a shortest 4-connected path.
\<close>

theorem astar_path_valid_and_shortest:
  assumes sel: "is_min_selector sel"
      and sb: "in_bounds start"
      and re: "reachable blocked start goal"
  shows "\<exists>p. astar sel start goal blocked = Some (Inr p) \<and>
             astar_base sel start goal blocked = Some (Inr p) \<and>
             p \<noteq> [] \<and> hd p = start \<and> last p = goal \<and>
             (\<forall>i. Suc i < length p \<longrightarrow> unit_step (p ! i) (p ! Suc i)) \<and>
             (\<forall>c\<in>set (tl p). c \<notin> blocked) \<and>
             (\<forall>c\<in>set p. in_bounds c) \<and>
             route blocked start goal p \<and>
             (\<forall>q. route blocked start goal q \<longrightarrow> length p \<le> length q)"
proof -
  obtain r where r: "astar sel start goal blocked = Some (Inr r)"
      "astar_base sel start goal blocked = Some (Inr r)"
      "(r = [] \<and> \<not> reachable blocked start goal) \<or>
       (route blocked start goal r \<and>
        (\<forall>q. route blocked start goal q \<longrightarrow> length r \<le> length q))"
    using astar_result [OF sel, of start goal blocked] by blast
  have rt: "route blocked start goal r"
    and opt: "\<forall>q. route blocked start goal q \<longrightarrow> length r \<le> length q"
    using r(3) re by blast+
  obtain r' where rr: "r = start # r'"
    using rt unfolding route_def by (cases r) auto
  have w: "walk blocked (start # r')"
    using rt rr unfolding route_def by simp
  have steps: "\<forall>i. Suc i < length r \<longrightarrow> unit_step (r ! i) (r ! Suc i)"
    using walk_steps [of blocked r] w rr by blast
  have tl: "\<forall>c\<in>set (tl r). c \<notin> blocked"
    using walk_tail [OF w] rr by simp
  have inb: "\<forall>c\<in>set r. in_bounds c"
    using walk_tail [OF w] rr sb by auto
  have basic: "r \<noteq> [] \<and> hd r = start \<and> last r = goal"
    using rt unfolding route_def by blast
  show ?thesis
    using r(1,2) basic steps tl inb rt opt by blast
qed

theorem astar_path_valid_and_shortest_witness:
  "is_min_selector lex_min \<and> in_bounds (0, 0) \<and>
   route {(1, 0)} (0, 0) (2, 1) [(0, 0), (0, 1), (1, 1), (2, 1)] \<and>
   (\<exists>p. astar lex_min (0, 0) (2, 1) {(1, 0)} = Some (Inr p) \<and>
        route {(1, 0)} (0, 0) (2, 1) p \<and> length p \<le> 4) \<and>
   astar lex_min (0, 0) (2, 1) {(1, 0)} = Some (Inr [(0, 0), (0, 1), (1, 1), (2, 1)])"
proof -
  have b: "in_bounds (0, 0)"
    by (simp add: in_bounds_def GRID_W_def GRID_H_def)
  have rt: "route {(1, 0)} (0, 0) (2, 1) [(0, 0), (0, 1), (1, 1), (2, 1)]"
    by (simp add: route_def unit_step_def in_bounds_def GRID_W_def GRID_H_def)
  then have re: "reachable {(1, 0)} (0, 0) (2, 1)"
    unfolding reachable_def by blast
  have v: "astar lex_min (0, 0) (2, 1) {(1, 0)} = Some (Inr [(0, 0), (0, 1), (1, 1), (2, 1)])"
    by code_simp
  obtain p where p: "astar lex_min (0, 0) (2, 1) {(1, 0)} = Some (Inr p)"
      "route {(1, 0)} (0, 0) (2, 1) p"
      "\<forall>q. route {(1, 0)} (0, 0) (2, 1) q \<longrightarrow> length p \<le> length q"
    using astar_path_valid_and_shortest [OF lex_min_is_min_selector b re] by blast
  have "length p \<le> 4"
    using p(3) rt by fastforce
  then show ?thesis
    using lex_min_is_min_selector b rt v p(1,2) by blast
qed

text \<open>
  Claim C4. For every start, goal and obstacle set \<^verbatim>\<open>astar\<close> returns a list: it neither
  raises nor runs forever. When the goal is unreachable from the start the list is empty.
\<close>

theorem astar_never_raises:
  assumes sel: "is_min_selector sel"
  shows "(\<exists>p. astar sel start goal blocked = Some (Inr p)) \<and>
         (\<exists>p. astar_base sel start goal blocked = Some (Inr p)) \<and>
         (\<not> reachable blocked start goal \<longrightarrow>
            astar sel start goal blocked = Some (Inr []) \<and>
            astar_base sel start goal blocked = Some (Inr []))"
proof -
  obtain r where r: "astar sel start goal blocked = Some (Inr r)"
      "astar_base sel start goal blocked = Some (Inr r)"
      "(r = [] \<and> \<not> reachable blocked start goal) \<or> route blocked start goal r"
    using astar_result [OF sel, of start goal blocked] by blast
  have "\<not> reachable blocked start goal \<longrightarrow> r = []"
    using r(3) unfolding reachable_def by blast
  then show ?thesis
    using r(1,2) by auto
qed

lemma enclosed_corner_unreachable: "\<not> reachable {(1, 0), (0, 1)} (0, 0) (2, 1)"
proof
  assume "reachable {(1, 0), (0, 1)} (0, 0) (2, 1)"
  then obtain q where q: "route {(1, 0), (0, 1)} (0, 0) (2, 1) q"
    unfolding reachable_def by blast
  then obtain q' where qq: "q = (0, 0) # q'"
    unfolding route_def by (cases q) auto
  have l: "last ((0, 0) # q') = (2, 1)" and w: "walk {(1, 0), (0, 1)} ((0, 0) # q')"
    using q qq unfolding route_def by simp_all
  then obtain b q'' where q': "q' = b # q''"
    by (cases q') auto
  have "unit_step (0, 0) b" "in_bounds b" "b \<notin> {(1, 0), (0, 1)}"
    using w q' by simp_all
  then show False
    by (cases b) (auto simp: unit_step_cases in_bounds_def)
qed

theorem astar_never_raises_witness:
  "is_min_selector lex_min \<and> \<not> reachable {(1, 0), (0, 1)} (0, 0) (2, 1) \<and>
   astar lex_min (0, 0) (2, 1) {(1, 0), (0, 1)} = Some (Inr []) \<and>
   astar_base lex_min (0, 0) (2, 1) {(1, 0), (0, 1)} = Some (Inr [])"
  using astar_never_raises [OF lex_min_is_min_selector, of "(0, 0)" "(2, 1)" "{(1, 0), (0, 1)}"]
        enclosed_corner_unreachable lex_min_is_min_selector
  by blast

text \<open>
  Claim C5 as stated: for every start and every blocked goal \<^verbatim>\<open>astar\<close> returns an empty
  path. It fails when the start is the goal: the cell itself is returned, blocked or not.
\<close>

theorem blocked_goal_counterexample:
  "(1, 1) \<in> {(1, 1) :: cell} \<and>
   astar lex_min (1, 1) (1, 1) {(1, 1)} = Some (Inr [(1, 1)]) \<and>
   astar lex_min (1, 1) (1, 1) {(1, 1)} \<noteq> Some (Inr []) \<and>
   astar_base lex_min (1, 1) (1, 1) {(1, 1)} \<noteq> Some (Inr [])"
proof -
  have a: "astar lex_min (1, 1) (1, 1) {(1, 1)} = Some (Inr [(1, 1)])"
    by (simp add: astar_def)
  have b: "astar_base lex_min (1, 1) (1, 1) {(1, 1)} = Some (Inr [(1, 1)])"
    using astar_base_eq [OF lex_min_is_min_selector, of "(1, 1)" "(1, 1)" "{(1, 1)}"] a by simp
  show ?thesis using a b by simp
qed

text \<open>
  Claim C5, amended. For every start and every blocked goal other than the start,
  \<^verbatim>\<open>astar\<close> returns an empty path. In v2 and v10 it does so before the frontier is
  created, whatever \<^verbatim>\<open>min\<close> would select; the base variant has no such early return and
  reaches the same result by exhausting the frontier.
\<close>

theorem blocked_goal_returns_empty:
  assumes "start \<noteq> goal" and "goal \<in> blocked"
  shows "astar sel start goal blocked = Some (Inr []) \<and>
         (is_min_selector sel \<longrightarrow> astar_base sel start goal blocked = Some (Inr []))"
proof -
  have a: "astar sel start goal blocked = Some (Inr [])"
    using assms by (simp add: astar_def)
  have "is_min_selector sel \<longrightarrow> astar_base sel start goal blocked = Some (Inr [])"
    using astar_base_eq [of sel start goal blocked] a by simp
  then show ?thesis using a by blast
qed

theorem blocked_goal_returns_empty_witness:
  "(0, 0) \<noteq> ((2, 1) :: cell) \<and> (2, 1) \<in> {(2, 1) :: cell} \<and>
   astar lex_min (0, 0) (2, 1) {(2, 1)} = Some (Inr []) \<and>
   astar_base lex_min (0, 0) (2, 1) {(2, 1)} = Some (Inr [])"
  using blocked_goal_returns_empty [of "(0, 0)" "(2, 1)" "{(2, 1)}" lex_min]
        lex_min_is_min_selector
  by simp

text \<open>
  Claim C8. \<^verbatim>\<open>astar\<close> called with the same cell as start and goal returns the one-cell
  path of that cell; \<^verbatim>\<open>set_path\<close> on an agent standing on that cell strips it, so the
  agent's path is empty, the agent is Idle and \<^verbatim>\<open>update\<close> leaves it where it is.
\<close>

theorem astar_same_cell:
  "astar sel c c blocked = Some (Inr [c]) \<and>
   (is_min_selector sel \<longrightarrow> astar_base sel c c blocked = Some (Inr [c])) \<and>
   ((gx s, gy s) = c \<longrightarrow>
      path (set_path [c] s) = Some [] \<and> idle (set_path [c] s) \<and>
      (gx (set_path [c] s), gy (set_path [c] s)) = c \<and>
      update dt (set_path [c] s) = set_path [c] s \<and>
      update_base dt (set_path [c] s) = set_path [c] s)"
proof -
  have a: "astar sel c c blocked = Some (Inr [c])"
    by (simp add: astar_def)
  have b: "is_min_selector sel \<longrightarrow> astar_base sel c c blocked = Some (Inr [c])"
    using astar_base_eq [of sel c c blocked] a by simp
  have p: "(gx s, gy s) = c \<longrightarrow> path (set_path [c] s) = Some []"
    by (auto simp: set_path_def)
  have d: "(gx s, gy s) = c \<longrightarrow>
      idle (set_path [c] s) \<and>
      (gx (set_path [c] s), gy (set_path [c] s)) = c \<and>
      update dt (set_path [c] s) = set_path [c] s \<and>
      update_base dt (set_path [c] s) = set_path [c] s"
    by (auto simp: set_path_def idle_def update_def update_base_def)
  show ?thesis using a b p d by blast
qed

theorem astar_same_cell_witness:
  "is_min_selector lex_min \<and> (gx hero0, gy hero0) = (10, 10) \<and>
   astar lex_min (10, 10) (10, 10) {(3, 4)} = Some (Inr [(10, 10)]) \<and>
   astar_base lex_min (10, 10) (10, 10) {(3, 4)} = Some (Inr [(10, 10)]) \<and>
   path (set_path [(10, 10)] hero0) = Some [] \<and>
   update 1 (set_path [(10, 10)] hero0) = set_path [(10, 10)] hero0"
proof -
  have c: "(gx hero0, gy hero0) = (10, 10)"
    by (simp add: hero0_def)
  show ?thesis
    using astar_same_cell [of lex_min "(10, 10)" "{(3, 4)}" hero0 1]
          lex_min_is_min_selector c
    by simp
qed

text \<open>
  Claim C10. Every non-empty path that \<^verbatim>\<open>astar\<close> returns begins with the start cell.
\<close>

theorem astar_path_starts_at_start:
  assumes sel: "is_min_selector sel"
  shows "(astar sel start goal blocked = Some (Inr p) \<and> p \<noteq> [] \<longrightarrow> hd p = start) \<and>
         (astar_base sel start goal blocked = Some (Inr p) \<and> p \<noteq> [] \<longrightarrow> hd p = start)"
proof -
  obtain r where r: "astar sel start goal blocked = Some (Inr r)"
      "astar_base sel start goal blocked = Some (Inr r)"
      "(r = [] \<and> \<not> reachable blocked start goal) \<or> route blocked start goal r"
    using astar_result [OF sel, of start goal blocked] by blast
  have "r \<noteq> [] \<longrightarrow> hd r = start"
    using r(3) unfolding route_def by blast
  then show ?thesis
    using r(1,2) by auto
qed

theorem astar_path_starts_at_start_witness:
  "is_min_selector lex_min \<and>
   astar lex_min (3, 3) (4, 5) {(4, 4)} = Some (Inr [(3, 3), (3, 4), (3, 5), (4, 5)]) \<and>
   hd [(3, 3), (3, 4), (3, 5), (4 :: int, 5 :: int)] = (3, 3)"
proof -
  have v: "astar lex_min (3, 3) (4, 5) {(4, 4)} = Some (Inr [(3, 3), (3, 4), (3, 5), (4, 5)])"
    by code_simp
  show ?thesis
    using astar_path_starts_at_start [OF lex_min_is_min_selector,
            of "(3, 3)" "(4, 5)" "{(4, 4)}" "[(3, 3), (3, 4), (3, 5), (4, 5)]"]
          lex_min_is_min_selector v
    by simp
qed

end
